theory Spec2Isabelle
  imports Complex_Main "HOL-Library.AList" "HOL-Library.Multiset"
begin

section \<open>Statistics and graph compression of rally.task.processing.utils\<close>

text \<open>
  Shallow embedding of \<^verbatim>\<open>src/rally/task/processing/utils.py\<close>.
  Python floats are modelled as exact reals, without the rounding of binary
  floating point; the section on the GraphZipper in floating point models the
  zipper again with the rounding. Python ints are \<open>int\<close>. Every raise of the source is a
  value of \<open>py_error\<close>; a function that mutates its argument or its object returns
  the new contents next to its result.
\<close>

subsection \<open>Errors and values\<close>

datatype py_error =
    InvalidArgumentsException string
  | ValueError string
  | RuntimeError string
  | ZeroDivisionError
  | IndexError
  | KeyError string

text \<open>
  A Python value as \<^verbatim>\<open>add_point\<close> tells them apart with
  \<^verbatim>\<open>isinstance(value, (int, float))\<close>: an int (bool included, as 0 and 1),
  a float, or anything else.
\<close>

datatype pyval = PyInt int | PyFloat real | PyOther

fun is_number :: "pyval \<Rightarrow> bool" where
  "is_number (PyInt n) = True"
| "is_number (PyFloat x) = True"
| "is_number PyOther = False"

fun to_real :: "pyval \<Rightarrow> real" where
  "to_real (PyInt n) = real_of_int n"
| "to_real (PyFloat x) = x"
| "to_real PyOther = 0"

text \<open>Python's \<^verbatim>\<open>int(x)\<close> on a float truncates towards zero.\<close>

definition py_int :: "real \<Rightarrow> int" where
  "py_int x = (if 0 \<le> x then \<lfloor>x\<rfloor> else \<lceil>x\<rceil>)"

text \<open>Python's \<^verbatim>\<open>xs[i]\<close>: a negative index counts from the end, out of range raises.\<close>

definition getitem :: "'a list \<Rightarrow> int \<Rightarrow> py_error + 'a" where
  "getitem xs i =
     (if 0 \<le> i \<and> i < int (length xs) then Inr (xs ! nat i)
      else if i < 0 \<and> - int (length xs) \<le> i then Inr (xs ! nat (int (length xs) + i))
      else Inl IndexError)"

subsection \<open>mean, median, percentile\<close>

text \<open>\<^verbatim>\<open>math.fsum\<close> is the exact sum.\<close>

definition mean :: "real list \<Rightarrow> py_error + real" where
  "mean values =
     (if values = [] then Inl (InvalidArgumentsException ''the list should be non-empty'')
      else Inr (sum_list values / real (length values)))"

text \<open>
  \<^verbatim>\<open>median\<close> and \<^verbatim>\<open>percentile\<close> return their result and the contents of the
  caller's list after the call. \<^verbatim>\<open>values = sorted(values)\<close> binds the local name
  to a new list; \<^verbatim>\<open>values.sort()\<close> sorts the caller's list itself.
\<close>

definition median :: "real list \<Rightarrow> (py_error + real) \<times> real list" where
  "median values =
     (if values = [] then (Inl (ValueError ''no median for empty data''), values)
      else
        let sorted_values = sort values;
            size = int (length sorted_values)
        in if size mod 2 = 1 then
             (getitem sorted_values (size div 2), values)
           else
             let index = size div 2
             in (case getitem sorted_values (index - 1) of
                   Inl e \<Rightarrow> (Inl e, values)
                 | Inr a \<Rightarrow>
                     (case getitem sorted_values index of
                        Inl e \<Rightarrow> (Inl e, values)
                      | Inr b \<Rightarrow> (Inr ((a + b) / 2), values))))"

definition percentile :: "real list \<Rightarrow> real \<Rightarrow> (py_error + real option) \<times> real list" where
  "percentile values percent =
     (if values = [] then (Inr None, values)
      else
        let values = sort values;
            k = real_of_int (int (length values) - 1) * percent;
            f = \<lfloor>k\<rfloor>;
            c = \<lceil>k\<rceil>
        in if f = c then
             (case getitem values (py_int k) of
                Inl e \<Rightarrow> (Inl e, values)
              | Inr v \<Rightarrow> (Inr (Some v), values))
           else
             (case getitem values f of
                Inl e \<Rightarrow> (Inl e, values)
              | Inr v0 \<Rightarrow>
                  (case getitem values c of
                     Inl e \<Rightarrow> (Inl e, values)
                   | Inr v1 \<Rightarrow>
                       (Inr (Some (v0 * (real_of_int c - k) + v1 * (k - real_of_int f))),
                        values))))"

subsection \<open>get_atomic_actions_data\<close>

text \<open>
  A raw record. \<open>error\<close> is the truth value of \<^verbatim>\<open>row["error"]\<close>;
  \<open>atomic_actions\<close> is \<open>None\<close> when the row has no such key, otherwise the
  dictionary in insertion order, whose values may be Python's \<^verbatim>\<open>None\<close>.
\<close>

record row =
  error :: bool
  atomic_actions :: "(string \<times> real option) list option"
  duration :: real

text \<open>The first loop: the keys of the first row with no error that has the key.\<close>

fun find_atomic_actions :: "row list \<Rightarrow> string list" where
  "find_atomic_actions [] = []"
| "find_atomic_actions (r # rest) =
     (if \<not> error r \<and> atomic_actions r \<noteq> None
      then (case atomic_actions r of Some d \<Rightarrow> map fst d | None \<Rightarrow> [])
      else find_atomic_actions rest)"

text \<open>
  The list comprehension for one action: \<^verbatim>\<open>r["atomic_actions"]\<close> raises KeyError on
  a row without the key.
\<close>

fun action_values :: "string \<Rightarrow> row list \<Rightarrow> py_error + real list" where
  "action_values a [] = Inr []"
| "action_values a (r # rs) =
     (case atomic_actions r of
        None \<Rightarrow> Inl (KeyError ''atomic_actions'')
      | Some d \<Rightarrow>
          (case action_values a rs of
             Inl e \<Rightarrow> Inl e
           | Inr vs \<Rightarrow>
               (case map_of d a of
                  Some (Some v) \<Rightarrow> Inr (v # vs)
                | _ \<Rightarrow> Inr vs)))"

text \<open>
  The second loop fills the OrderedDict: assigning to a key that is there keeps its
  place, a new key goes to the end (\<open>AList.update\<close>).
\<close>

fun collect_actions ::
  "string list \<Rightarrow> row list \<Rightarrow> (string \<times> real list) list \<Rightarrow> py_error + (string \<times> real list) list"
where
  "collect_actions [] raw_data actions_data = Inr actions_data"
| "collect_actions (a # as) raw_data actions_data =
     (case action_values a raw_data of
        Inl e \<Rightarrow> Inl e
      | Inr vs \<Rightarrow> collect_actions as raw_data (AList.update a vs actions_data))"

definition get_atomic_actions_data :: "row list \<Rightarrow> py_error + (string \<times> real list) list" where
  "get_atomic_actions_data raw_data =
     (case collect_actions (find_atomic_actions raw_data) raw_data [] of
        Inl e \<Rightarrow> Inl e
      | Inr actions_data \<Rightarrow>
          Inr (AList.update ''total''
                 (map duration (filter (\<lambda>r. \<not> error r) raw_data)) actions_data))"

subsection \<open>compress\<close>

text \<open>
  The default \<^verbatim>\<open>normalize\<close> is \<^verbatim>\<open>lambda i: i and round(float(i), 2) or 0.0\<close>.
  Python's rounding of a float to two decimals is the parameter \<open>round2\<close>.
  The default \<^verbatim>\<open>merge\<close> closes over whichever \<^verbatim>\<open>normalize\<close> is in force.
\<close>

definition default_normalize :: "(real \<Rightarrow> real) \<Rightarrow> real \<Rightarrow> real" where
  "default_normalize round2 i = (if i \<noteq> 0 \<and> round2 i \<noteq> 0 then round2 i else 0)"

definition default_merge :: "(real \<Rightarrow> real) \<Rightarrow> real \<Rightarrow> real \<Rightarrow> real" where
  "default_merge normalize_f a b = normalize_f ((a + normalize_f b) / 2)"

text \<open>\<^verbatim>\<open>enumerate(data, start=1)\<close>.\<close>

fun enumerate :: "int \<Rightarrow> 'a list \<Rightarrow> (int \<times> 'a) list" where
  "enumerate i [] = []"
| "enumerate i (x # xs) = (i, x) # enumerate (i + 1) xs"

text \<open>
  The loop state is \<open>(store, cur, result)\<close>. \<open>cur = None\<close> stands for
  \<^verbatim>\<open>first == True\<close> (the old \<^verbatim>\<open>cur_value\<close> is dead then: it is overwritten before
  it is read), \<open>cur = Some v\<close> for \<^verbatim>\<open>first == False\<close> with \<^verbatim>\<open>cur_value == v\<close>.
\<close>

fun compress_loop ::
  "(real \<Rightarrow> real \<Rightarrow> real) \<Rightarrow> (real \<Rightarrow> real) \<Rightarrow> real \<Rightarrow> (int \<times> real) list \<Rightarrow>
   real \<times> real option \<times> (int \<times> real) list \<Rightarrow> real \<times> real option \<times> (int \<times> real) list"
where
  "compress_loop merge_f normalize_f factor [] st = st"
| "compress_loop merge_f normalize_f factor ((idx, v) # rest) (store, cur, result) =
     (let store = store + factor;
          cur_value = (case cur of None \<Rightarrow> normalize_f v | Some c \<Rightarrow> merge_f c v)
      in if store > 1
         then compress_loop merge_f normalize_f factor rest
                (store - 1, None, result @ [(idx, cur_value)])
         else compress_loop merge_f normalize_f factor rest (store, Some cur_value, result))"

definition compress ::
  "(real \<Rightarrow> real) \<Rightarrow> real list \<Rightarrow> int \<Rightarrow> (real \<Rightarrow> real \<Rightarrow> real) option \<Rightarrow>
   (real \<Rightarrow> real) option \<Rightarrow> py_error + (int \<times> real) list"
where
  "compress round2 data limit merge_opt normalize_opt =
     (let normalize_f = (case normalize_opt of None \<Rightarrow> default_normalize round2 | Some n \<Rightarrow> n);
          merge_f = (case merge_opt of None \<Rightarrow> default_merge normalize_f | Some m \<Rightarrow> m)
      in if int (length data) \<le> limit then
           Inr (map (\<lambda>(idx, v). (idx, normalize_f v)) (enumerate 1 data))
         else if length data = 0 then Inl ZeroDivisionError
         else
           let factor = real_of_int limit / real (length data);
               (store, cur, result) =
                 compress_loop merge_f normalize_f factor (enumerate 1 data) (0, None, [])
           in (case cur of
                 None \<Rightarrow> Inr result
               | Some cur_value \<Rightarrow> Inr (result @ [(int (length data), cur_value)])))"

subsection \<open>GraphZipper\<close>

text \<open>
  The weights and values of \<^verbatim>\<open>ratio_value_points\<close> are kept as reals (the value
  is a number by then). A point of \<^verbatim>\<open>zipped_graph\<close> keeps the value as it was
  given when nothing is compressed, and is a float otherwise.
\<close>

record GraphZipper =
  base_size :: int
  zipped_size :: int
  compression_ratio :: real
  point_order :: int
  cached_ratios_sum :: real
  ratio_value_points :: "(real \<times> real) list"
  zipped_graph :: "(int \<times> pyval) list"

text \<open>\<^verbatim>\<open>__init__\<close>: the division by \<^verbatim>\<open>float(zipped_size)\<close> raises on zero.\<close>

definition GraphZipper_init :: "int \<Rightarrow> int \<Rightarrow> py_error + GraphZipper" where
  "GraphZipper_init bs zs =
     (if bs \<ge> zs then
        (if zs = 0 then Inl ZeroDivisionError
         else Inr \<lparr>base_size = bs, zipped_size = zs,
                   compression_ratio = real_of_int bs / real_of_int zs,
                   point_order = 0, cached_ratios_sum = 0,
                   ratio_value_points = [], zipped_graph = []\<rparr>)
      else Inr \<lparr>base_size = bs, zipped_size = zs, compression_ratio = 1,
                point_order = 0, cached_ratios_sum = 0,
                ratio_value_points = [], zipped_graph = []\<rparr>)"

abbreviation already_full :: py_error where
  "already_full \<equiv> RuntimeError ''GraphZipper is already full. You can't add more points.''"

definition get_zipped_point :: "GraphZipper \<Rightarrow> py_error + (int \<times> pyval)" where
  "get_zipped_point g =
     (let order =
            (if real_of_int (point_order g) - compression_ratio g \<le> 1 then 1
             else if point_order g = base_size g then base_size g
             else point_order g - py_int (compression_ratio g / 2))
      in if compression_ratio g = 0 then Inl ZeroDivisionError
         else Inr (order,
                   PyFloat (sum_list (map (\<lambda>p. fst p * snd p) (ratio_value_points g))
                            / compression_ratio g)))"

text \<open>
  \<^verbatim>\<open>add_point\<close> returns how the call ended and the object after the call: the
  counter is incremented before the capacity check, so a failed call changes it too.
\<close>

definition add_point :: "GraphZipper \<Rightarrow> pyval \<Rightarrow> (py_error + unit) \<times> GraphZipper" where
  "add_point g0 v0 =
     (let g = g0\<lparr>point_order := point_order g0 + 1\<rparr>
      in if point_order g > base_size g then
           (Inl already_full, g)
         else
           let v = (if is_number v0 then v0 else PyInt 0)
           in if compression_ratio g \<le> 1 then
                (Inr (), g\<lparr>zipped_graph := zipped_graph g @ [(point_order g, v)]\<rparr>)
              else if cached_ratios_sum g + 1 < compression_ratio g then
                (Inr (), g\<lparr>cached_ratios_sum := cached_ratios_sum g + 1,
                           ratio_value_points := ratio_value_points g @ [(1, to_real v)]\<rparr>)
              else
                let rest = compression_ratio g - cached_ratios_sum g;
                    g1 = g\<lparr>ratio_value_points := ratio_value_points g @ [(rest, to_real v)]\<rparr>
                in (case get_zipped_point g1 of
                      Inl e \<Rightarrow> (Inl e, g1)
                    | Inr p \<Rightarrow>
                        (Inr (), g1\<lparr>zipped_graph := zipped_graph g1 @ [p],
                                    ratio_value_points := [(1 - rest, to_real v)],
                                    cached_ratios_sum := 1 - rest\<rparr>)))"

definition get_zipped_graph :: "GraphZipper \<Rightarrow> (int \<times> pyval) list" where
  "get_zipped_graph g = zipped_graph g"

text \<open>A caller feeding values in order; the first exception ends the feeding.\<close>

fun add_points :: "GraphZipper \<Rightarrow> pyval list \<Rightarrow> (py_error + unit) \<times> GraphZipper" where
  "add_points g [] = (Inr (), g)"
| "add_points g (v # vs) =
     (case add_point g v of
        (Inl e, g') \<Rightarrow> (Inl e, g')
      | (Inr u, g') \<Rightarrow> add_points g' vs)"

text \<open>A caller that goes on calling after an exception, keeping each outcome.\<close>

fun add_points_catching :: "GraphZipper \<Rightarrow> pyval list \<Rightarrow> (py_error + unit) list \<times> GraphZipper" where
  "add_points_catching g [] = ([], g)"
| "add_points_catching g (v # vs) =
     (let (r, g') = add_point g v;
          (rs, g'') = add_points_catching g' vs
      in (r # rs, g''))"


section \<open>The specification's wording\<close>

text \<open>
  The definitions of this section follow the words of the specification, not the
  source; the theorems below compare the source with them.
\<close>

text \<open>The specification's "InvalidArgument" error.\<close>

fun is_InvalidArgument :: "py_error \<Rightarrow> bool" where
  "is_InvalidArgument (InvalidArgumentsException m) = True"
| "is_InvalidArgument e = False"

fun fails_with_InvalidArgument :: "py_error + 'a \<Rightarrow> bool" where
  "fails_with_InvalidArgument (Inl e) = is_InvalidArgument e"
| "fails_with_InvalidArgument (Inr x) = False"

text \<open>
  The position of a flushed point: 1 near the start, \<open>base_size\<close> at the last point,
  otherwise centred in the window; the alternatives are tried in this order.
\<close>

definition spec_flush_position :: "int \<Rightarrow> int \<Rightarrow> real \<Rightarrow> int" where
  "spec_flush_position po bs r =
     (if real_of_int po - r \<le> 1 then 1 else if po = bs then bs else po - \<lfloor>r / 2\<rfloor>)"

text \<open>The value of a flushed point: the weighted sum of the pending contributions over the ratio.\<close>

definition spec_flush_value :: "(real \<times> real) list \<Rightarrow> real \<Rightarrow> real" where
  "spec_flush_value pending r = (\<Sum>(w, x) \<leftarrow> pending. w * x) / r"

text \<open>
  The linear-interpolation percentile: rank \<open>k = (n - 1) * percent\<close> in the sorted
  values; the element at rank \<open>k\<close> when \<open>k\<close> is an integer, otherwise the two
  neighbours weighted by their distance from \<open>k\<close>.
\<close>

definition spec_percentile :: "real list \<Rightarrow> real \<Rightarrow> real" where
  "spec_percentile values percent =
     (let s = sort values;
          k = real (length values - 1) * percent
      in if k = real_of_int \<lfloor>k\<rfloor> then s ! nat \<lfloor>k\<rfloor>
         else s ! nat \<lfloor>k\<rfloor> * (real_of_int \<lceil>k\<rceil> - k)
              + s ! nat \<lceil>k\<rceil> * (k - real_of_int \<lfloor>k\<rfloor>))"

text \<open>
  The action names as the specification words them: the keys of the first record
  with \<open>error = false\<close> and a non-empty atomic-actions mapping, none if there is no
  such record.
\<close>

definition spec_action_names :: "row list \<Rightarrow> string list" where
  "spec_action_names raw_data =
     (case find (\<lambda>r. \<not> error r \<and> (case atomic_actions r of None \<Rightarrow> False | Some d \<Rightarrow> d \<noteq> []))
             raw_data of
        None \<Rightarrow> []
      | Some r \<Rightarrow> (case atomic_actions r of None \<Rightarrow> [] | Some d \<Rightarrow> map fst d))"

section \<open>Invariants\<close>

text \<open>
  The invariant of the loop of \<^verbatim>\<open>compress\<close> before the item of index \<open>i\<close>, for a
  factor strictly between 0 and 1: \<open>store\<close> is what the items so far added less one
  per flushed point.
\<close>

definition compress_inv ::
  "real \<Rightarrow> int \<Rightarrow> real \<times> real option \<times> (int \<times> real) list \<Rightarrow> bool"
where
  "compress_inv factor i st =
     (case st of (store, cur, result) \<Rightarrow>
        1 \<le> i \<and> 0 \<le> store \<and> store \<le> 1 \<and>
        (if 1 < i then 0 < store else True) \<and>
        (if cur = None then store < 1 else list_all (\<lambda>q. q < i - 1) (map fst result)) \<and>
        store = real_of_int (i - 1) * factor - real (length result) \<and>
        sorted_wrt (<) (map fst result) \<and>
        list_all (\<lambda>q. 1 \<le> q \<and> q < i) (map fst result))"

section \<open>GraphZipper in floating point\<close>

text \<open>
  The source computes \<^verbatim>\<open>compression_ratio\<close>, \<^verbatim>\<open>cached_ratios_sum\<close> and the weights
  in doubles. In this second model of the zipper every arithmetic operation that
  the source does on a float is followed by the rounding \<open>rnd\<close>; a float is the
  real it denotes. Operations on two Python ints are exact in the source; here
  they are rounded too, which is the same for the ints that \<open>rnd\<close> keeps.
\<close>

text \<open>
  What the proofs use of a rounding with unit roundoff \<open>eps\<close> that keeps the
  integers up to \<open>N\<close>: it is monotone and idempotent, its relative error on an
  argument of magnitude at least one half is at most \<open>eps\<close>, and the difference of
  two of its values within a factor 2 of each other is one of its values. IEEE
  binary64 rounding to nearest, on the range of the finite doubles and continued
  by the identity outside it, is such a rounding with \<open>eps = 1 / 2 ^ 53\<close> and
  \<open>N = 2 ^ 53\<close>.
\<close>

definition is_rounding :: "(real \<Rightarrow> real) \<Rightarrow> real \<Rightarrow> int \<Rightarrow> bool" where
  "is_rounding rnd eps N \<longleftrightarrow>
     (\<forall>x y. x \<le> y \<longrightarrow> rnd x \<le> rnd y) \<and>
     (\<forall>x. rnd (rnd x) = rnd x) \<and>
     (\<forall>n::int. \<bar>n\<bar> \<le> N \<longrightarrow> rnd (real_of_int n) = real_of_int n) \<and>
     (\<forall>x. 1 / 2 \<le> \<bar>x\<bar> \<longrightarrow> \<bar>rnd x - x\<bar> \<le> eps * \<bar>x\<bar>) \<and>
     (\<forall>x y. rnd x = x \<longrightarrow> rnd y = y \<longrightarrow> y / 2 \<le> x \<longrightarrow> x \<le> 2 * y \<longrightarrow>
        rnd (x - y) = x - y)"

definition GraphZipper_init_fp :: "(real \<Rightarrow> real) \<Rightarrow> int \<Rightarrow> int \<Rightarrow> py_error + GraphZipper" where
  "GraphZipper_init_fp rnd bs zs =
     (if bs \<ge> zs then
        (if rnd (real_of_int zs) = 0 then Inl ZeroDivisionError
         else Inr \<lparr>base_size = bs, zipped_size = zs,
                   compression_ratio = rnd (rnd (real_of_int bs) / rnd (real_of_int zs)),
                   point_order = 0, cached_ratios_sum = 0,
                   ratio_value_points = [], zipped_graph = []\<rparr>)
      else Inr \<lparr>base_size = bs, zipped_size = zs, compression_ratio = 1,
                point_order = 0, cached_ratios_sum = 0,
                ratio_value_points = [], zipped_graph = []\<rparr>)"

text \<open>\<^verbatim>\<open>sum(p[0] * p[1] for p in ...)\<close> adds from the left, starting from 0.\<close>

definition weighted_sum_fp :: "(real \<Rightarrow> real) \<Rightarrow> (real \<times> real) list \<Rightarrow> real" where
  "weighted_sum_fp rnd ps = foldl (\<lambda>acc p. rnd (acc + rnd (fst p * snd p))) 0 ps"

definition get_zipped_point_fp :: "(real \<Rightarrow> real) \<Rightarrow> GraphZipper \<Rightarrow> py_error + (int \<times> pyval)" where
  "get_zipped_point_fp rnd g =
     (let order =
            (if rnd (rnd (real_of_int (point_order g)) - compression_ratio g) \<le> 1 then 1
             else if point_order g = base_size g then base_size g
             else point_order g - py_int (rnd (compression_ratio g / 2)))
      in if compression_ratio g = 0 then Inl ZeroDivisionError
         else Inr (order,
                   PyFloat (rnd (weighted_sum_fp rnd (ratio_value_points g)
                                 / compression_ratio g))))"

definition add_point_fp ::
  "(real \<Rightarrow> real) \<Rightarrow> GraphZipper \<Rightarrow> pyval \<Rightarrow> (py_error + unit) \<times> GraphZipper"
where
  "add_point_fp rnd g0 v0 =
     (let g = g0\<lparr>point_order := point_order g0 + 1\<rparr>
      in if point_order g > base_size g then (Inl already_full, g)
         else
           let v = (if is_number v0 then v0 else PyInt 0)
           in if compression_ratio g \<le> 1 then
                (Inr (), g\<lparr>zipped_graph := zipped_graph g @ [(point_order g, v)]\<rparr>)
              else if rnd (cached_ratios_sum g + 1) < compression_ratio g then
                (Inr (), g\<lparr>cached_ratios_sum := rnd (cached_ratios_sum g + 1),
                           ratio_value_points := ratio_value_points g @ [(1, to_real v)]\<rparr>)
              else
                let rest = rnd (compression_ratio g - cached_ratios_sum g);
                    g1 = g\<lparr>ratio_value_points := ratio_value_points g @ [(rest, to_real v)]\<rparr>
                in (case get_zipped_point_fp rnd g1 of
                      Inl e \<Rightarrow> (Inl e, g1)
                    | Inr p \<Rightarrow>
                        (Inr (), g1\<lparr>zipped_graph := zipped_graph g1 @ [p],
                                    ratio_value_points := [(rnd (1 - rest), to_real v)],
                                    cached_ratios_sum := rnd (1 - rest)\<rparr>)))"

fun add_points_fp ::
  "(real \<Rightarrow> real) \<Rightarrow> GraphZipper \<Rightarrow> pyval list \<Rightarrow> (py_error + unit) \<times> GraphZipper"
where
  "add_points_fp rnd g [] = (Inr (), g)"
| "add_points_fp rnd g (v # vs) =
     (case add_point_fp rnd g v of
        (Inl e, g') \<Rightarrow> (Inl e, g')
      | (Inr u, g') \<Rightarrow> add_points_fp rnd g' vs)"

text \<open>A rounding to the multiples of \<open>1 / 2 ^ 60\<close>, half up.\<close>

definition round_grid :: "real \<Rightarrow> real" where
  "round_grid x = real_of_int \<lfloor>x * 2 ^ 60 + 1 / 2\<rfloor> / 2 ^ 60"
text \<open>
  What stays fixed while a compressing zipper is fed: the rounding, a ratio above 1
  that is one of its values, and a \<open>base_size\<close> small against the unit roundoff.
\<close>

definition zipper_fp_ctx :: "(real \<Rightarrow> real) \<Rightarrow> real \<Rightarrow> int \<Rightarrow> GraphZipper \<Rightarrow> bool" where
  "zipper_fp_ctx rnd eps N g \<longleftrightarrow>
     is_rounding rnd eps N \<and>
     1 < compression_ratio g \<and>
     rnd (compression_ratio g) = compression_ratio g \<and>
     compression_ratio g \<le> real_of_int (base_size g) \<and>
     base_size g < N \<and>
     eps * real_of_int (base_size g) \<le> 1 / 5"

text \<open>
  The invariant while it is fed: the cached weight is a value of the rounding
  between \<open>- 1 / 2\<close> and the ratio; the weight flushed and cached differs from the
  number of points by at most one rounding error per point; the cached weight is
  the number of points before the first flush, and leaves room for the ratio
  after it; with an integer ratio nothing is rounded; the positions flushed so
  far are below every position a later flush can give.
\<close>

definition zipper_fp_inv :: "(real \<Rightarrow> real) \<Rightarrow> real \<Rightarrow> GraphZipper \<Rightarrow> bool" where
  "zipper_fp_inv rnd eps g \<longleftrightarrow>
     0 \<le> point_order g \<and> point_order g \<le> base_size g \<and>
     rnd (cached_ratios_sum g) = cached_ratios_sum g \<and>
     cached_ratios_sum g < compression_ratio g \<and>
     - (1 / 2) \<le> cached_ratios_sum g \<and>
     \<bar>real (length (zipped_graph g)) * compression_ratio g + cached_ratios_sum g
        - real_of_int (point_order g)\<bar>
       \<le> real_of_int (point_order g) * (eps * (compression_ratio g + 2)) \<and>
     (zipped_graph g = [] \<longrightarrow> cached_ratios_sum g = real_of_int (point_order g)) \<and>
     (zipped_graph g \<noteq> [] \<longrightarrow>
        real_of_int \<lceil>cached_ratios_sum g\<rceil> + compression_ratio g
          \<le> real_of_int (point_order g) + 1) \<and>
     (compression_ratio g = real_of_int \<lfloor>compression_ratio g\<rfloor> \<longrightarrow>
        cached_ratios_sum g = real_of_int \<lfloor>cached_ratios_sum g\<rfloor> \<and>
        real (length (zipped_graph g)) * compression_ratio g + cached_ratios_sum g
          = real_of_int (point_order g)) \<and>
     sorted_wrt (<) (map fst (zipped_graph g)) \<and>
     (\<forall>q \<in> set (map fst (zipped_graph g)).
        1 \<le> q \<and> q \<le> point_order g \<and>
        (q = 1 \<or> q + py_int (rnd (compression_ratio g / 2)) \<le> point_order g
           \<or> point_order g = base_size g))"

section \<open>Properties\<close>

subsection \<open>Empty input to the statistics\<close>

text \<open>
  C4 as stated fails: \<^verbatim>\<open>median([])\<close> does not raise the InvalidArgument error that
  \<^verbatim>\<open>mean([])\<close> raises; it raises Python's ValueError.
\<close>

theorem median_empty_not_InvalidArgument:
  "\<not> fails_with_InvalidArgument (fst (median []))"
  by (simp add: median_def)

text \<open>
  C4, amended: \<^verbatim>\<open>mean([])\<close> fails with InvalidArgumentsException, \<^verbatim>\<open>median([])\<close>
  fails with ValueError, and \<^verbatim>\<open>percentile([], p)\<close> returns None for every \<open>p\<close>,
  without failing.
\<close>

theorem empty_input_results:
  "mean [] = Inl (InvalidArgumentsException ''the list should be non-empty'') \<and>
   fails_with_InvalidArgument (mean []) \<and>
   fst (median []) = Inl (ValueError ''no median for empty data'') \<and>
   fst (percentile [] p) = Inr None"
  by (simp add: mean_def median_def percentile_def)

subsection \<open>The caller's list\<close>

text \<open>
  C9: \<^verbatim>\<open>median\<close> leaves the caller's list as it was; after \<^verbatim>\<open>percentile\<close> the
  caller's list is the sorted permutation of its former contents, which for an
  unsorted list such as \<open>[3, 1, 2]\<close> differs from what was passed in.
\<close>

theorem median_keeps_percentile_sorts_input:
  "snd (median values) = values \<and>
   snd (percentile values p) = sort values \<and>
   sorted (snd (percentile values p)) \<and>
   mset (snd (percentile values p)) = mset values \<and>
   snd (percentile [3, 1, 2] p) = [1, 2, 3] \<and>
   snd (median [3, 1, 2]) = [3, 1, 2]"
proof -
  have m: "snd (median xs) = xs" for xs
    by (simp add: median_def Let_def split: sum.splits)
  have p: "snd (percentile xs p) = sort xs" for xs
    by (simp add: percentile_def Let_def split: sum.splits)
  have s: "sort [3, 1, 2 :: real] = [1, 2, 3]" by simp
  show ?thesis by (simp add: m p s del: sort_key_simps)
qed

subsection \<open>GraphZipper: capacity\<close>

lemma add_point_full:
  "base_size g < point_order g + 1 \<Longrightarrow>
   add_point g v = (Inl already_full, g\<lparr>point_order := point_order g + 1\<rparr>)"
  by (simp add: add_point_def Let_def)

lemma add_point_ok:
  assumes "point_order g + 1 \<le> base_size g"
  shows "fst (add_point g v) = Inr ()"
    and "point_order (snd (add_point g v)) = point_order g + 1"
    and "base_size (snd (add_point g v)) = base_size g"
    and "compression_ratio (snd (add_point g v)) = compression_ratio g"
    and "zipped_size (snd (add_point g v)) = zipped_size g"
  using assms
  by (auto simp: add_point_def Let_def get_zipped_point_def split: sum.splits)

lemma add_point_order:
  "point_order (snd (add_point g v)) = point_order g + 1"
  by (auto simp: add_point_def Let_def get_zipped_point_def split: sum.splits)

lemma add_points_Cons_ok:
  "fst (add_point g v) = Inr () \<Longrightarrow>
   add_points g (v # vs) = add_points (snd (add_point g v)) vs"
  by (cases "add_point g v") (auto split: sum.splits)

lemma add_points_ok:
  "point_order g + int (length vs) \<le> base_size g \<Longrightarrow>
   fst (add_points g vs) = Inr () \<and>
   point_order (snd (add_points g vs)) = point_order g + int (length vs) \<and>
   base_size (snd (add_points g vs)) = base_size g \<and>
   compression_ratio (snd (add_points g vs)) = compression_ratio g"
proof (induction vs arbitrary: g)
  case Nil
  then show ?case by simp
next
  case (Cons v vs)
  let ?g = "snd (add_point g v)"
  have le: "point_order g + 1 \<le> base_size g" using Cons.prems by simp
  note step = add_point_ok[OF le, of v]
  have "point_order ?g + int (length vs) \<le> base_size ?g"
    using Cons.prems step(2,3) by simp
  from Cons.IH[OF this] show ?case
    by (simp add: add_points_Cons_ok[OF step(1)] step(2,3,4) del: add_points.simps(2))
qed

lemma init_fields:
  "GraphZipper_init bs zs = Inr g \<Longrightarrow>
   base_size g = bs \<and> zipped_size g = zs \<and> point_order g = 0 \<and> cached_ratios_sum g = 0 \<and>
   ratio_value_points g = [] \<and> zipped_graph g = [] \<and>
   compression_ratio g = (if zs \<le> bs then real_of_int bs / real_of_int zs else 1)"
  by (auto simp: GraphZipper_init_def split: if_splits)

text \<open>
  C6: every \<^verbatim>\<open>add_point\<close> increments \<open>point_order\<close>, and it fails with the
  "already full" RuntimeError exactly when the incremented counter exceeds
  \<open>base_size\<close>. On a zipper constructed with \<open>base_size = bs\<close>, feeding \<open>bs\<close> values
  succeeds and the next call fails with that error.
\<close>

theorem add_point_capacity:
  "point_order (snd (add_point g v)) = point_order g + 1 \<and>
   (fst (add_point g v) = Inl already_full
      \<longleftrightarrow> base_size g < point_order (snd (add_point g v))) \<and>
   (GraphZipper_init bs zs = Inr g0 \<longrightarrow> int (length vs) = bs \<longrightarrow>
      fst (add_points g0 vs) = Inr () \<and>
      fst (add_point (snd (add_points g0 vs)) w) = Inl already_full)"
proof (intro conjI impI)
  show "point_order (snd (add_point g v)) = point_order g + 1" by (rule add_point_order)
next
  show "(fst (add_point g v) = Inl already_full)
      = (base_size g < point_order (snd (add_point g v)))"
  proof (cases "base_size g < point_order g + 1")
    case True
    then show ?thesis by (simp add: add_point_full)
  next
    case False
    then have "point_order g + 1 \<le> base_size g" by simp
    from add_point_ok(1,2)[OF this, of v] False show ?thesis by simp
  qed
next
  assume i: "GraphZipper_init bs zs = Inr g0" and l: "int (length vs) = bs"
  from init_fields[OF i] l have "point_order g0 + int (length vs) \<le> base_size g0" by simp
  from add_points_ok[OF this] init_fields[OF i] l
  have ok: "fst (add_points g0 vs) = Inr ()"
    and po: "point_order (snd (add_points g0 vs)) = bs"
    and bs: "base_size (snd (add_points g0 vs)) = bs" by simp_all
  show "fst (add_points g0 vs) = Inr ()" by (rule ok)
  have "base_size (snd (add_points g0 vs)) < point_order (snd (add_points g0 vs)) + 1"
    using po bs by simp
  from add_point_full[OF this]
  show "fst (add_point (snd (add_points g0 vs)) w) = Inl already_full" by simp
qed

theorem add_point_capacity_witness:
  "GraphZipper_init 3 2 =
     Inr \<lparr>base_size = 3, zipped_size = 2, compression_ratio = 3 / 2, point_order = 0,
          cached_ratios_sum = 0, ratio_value_points = [], zipped_graph = []\<rparr> \<and>
   int (length [PyInt 5, PyFloat 2, PyOther]) = 3 \<and>
   fst (add_points
          \<lparr>base_size = 3, zipped_size = 2, compression_ratio = 3 / 2, point_order = 0,
           cached_ratios_sum = 0, ratio_value_points = [], zipped_graph = []\<rparr>
          [PyInt 5, PyFloat 2, PyOther]) = Inr () \<and>
   fst (add_point
          (snd (add_points
                  \<lparr>base_size = 3, zipped_size = 2, compression_ratio = 3 / 2, point_order = 0,
                   cached_ratios_sum = 0, ratio_value_points = [], zipped_graph = []\<rparr>
                  [PyInt 5, PyFloat 2, PyOther]))
          (PyInt 7)) = Inl already_full"
proof -
  have i: "GraphZipper_init 3 2 =
     Inr \<lparr>base_size = 3, zipped_size = 2, compression_ratio = 3 / 2, point_order = 0,
          cached_ratios_sum = 0, ratio_value_points = [], zipped_graph = []\<rparr>"
    by (simp add: GraphZipper_init_def)
  have l: "int (length [PyInt 5, PyFloat 2, PyOther]) = 3" by simp
  from add_point_capacity[of _ _ 3 2 _ "[PyInt 5, PyFloat 2, PyOther]" "PyInt 7"] i l
  show ?thesis by blast
qed

subsection \<open>GraphZipper: no compression\<close>

lemma enumerate_fst: "map fst (enumerate i xs) = [i..i + int (length xs) - 1]"
proof (induction xs arbitrary: i)
  case Nil
  then show ?case by simp
next
  case (Cons x xs)
  have "[i..i + int (length (x # xs)) - 1] = i # [i + 1..i + 1 + int (length xs) - 1]"
    by (subst upto_rec1) (simp_all add: add.commute add.left_commute)
  then show ?case using Cons.IH[of "i + 1"] by simp
qed

lemma enumerate_snd: "map snd (enumerate i xs) = xs"
  by (induction xs arbitrary: i) simp_all

lemma enumerate_length: "length (enumerate i xs) = length xs"
  by (induction xs arbitrary: i) simp_all

lemma add_point_uncompressed:
  assumes "compression_ratio g \<le> 1" "point_order g + 1 \<le> base_size g" "is_number v"
  shows "zipped_graph (snd (add_point g v)) = zipped_graph g @ [(point_order g + 1, v)]"
  using assms by (simp add: add_point_def Let_def)

lemma add_points_uncompressed:
  "compression_ratio g \<le> 1 \<Longrightarrow> point_order g + int (length vs) \<le> base_size g \<Longrightarrow>
   \<forall>v \<in> set vs. is_number v \<Longrightarrow>
   zipped_graph (snd (add_points g vs)) = zipped_graph g @ enumerate (point_order g + 1) vs"
proof (induction vs arbitrary: g)
  case Nil
  then show ?case by simp
next
  case (Cons v vs)
  let ?g = "snd (add_point g v)"
  have le: "point_order g + 1 \<le> base_size g" using Cons.prems by simp
  note step = add_point_ok[OF le, of v]
  have n: "is_number v" using Cons.prems by simp
  have "zipped_graph (snd (add_points ?g vs)) = zipped_graph ?g @ enumerate (point_order ?g + 1) vs"
    using Cons.prems step by (intro Cons.IH) simp_all
  then show ?case
    by (simp add: add_points_Cons_ok[OF step(1)] step(2)
          add_point_uncompressed[OF Cons.prems(1) le n] del: add_points.simps(2))
qed

text \<open>
  C7: a zipper constructed with \<open>base_size \<le> zipped_size\<close> has compression ratio 1,
  and feeding it \<open>base_size\<close> numeric values succeeds and leaves exactly these values,
  unchanged and in order, at the positions \<open>1..base_size\<close>.
\<close>

theorem zipper_without_compression:
  assumes "GraphZipper_init bs zs = Inr g0" and "bs \<le> zs" and "int (length vs) = bs"
    and "\<forall>v \<in> set vs. is_number v"
  shows "compression_ratio g0 = 1 \<and>
         fst (add_points g0 vs) = Inr () \<and>
         length (get_zipped_graph (snd (add_points g0 vs))) = length vs \<and>
         map fst (get_zipped_graph (snd (add_points g0 vs))) = [1..bs] \<and>
         map snd (get_zipped_graph (snd (add_points g0 vs))) = vs"
proof -
  note f = init_fields[OF assms(1)]
  have "zs \<noteq> 0 \<or> bs < zs"
    using assms(1) by (auto simp: GraphZipper_init_def split: if_splits)
  then have r: "compression_ratio g0 = 1" using f assms(2) by auto
  have le: "point_order g0 + int (length vs) \<le> base_size g0" using f assms(3) by simp
  have ok: "fst (add_points g0 vs) = Inr ()" using add_points_ok[OF le] by simp
  have "compression_ratio g0 \<le> 1" using r by simp
  from add_points_uncompressed[OF this le assms(4)] f
  have z: "get_zipped_graph (snd (add_points g0 vs)) = enumerate 1 vs"
    by (simp add: get_zipped_graph_def)
  show ?thesis
    using r ok assms(3) by (simp add: z enumerate_length enumerate_fst enumerate_snd)
qed

theorem zipper_without_compression_witness:
  "compression_ratio
     \<lparr>base_size = 3, zipped_size = 3, compression_ratio = 1, point_order = 0,
      cached_ratios_sum = 0, ratio_value_points = [], zipped_graph = []\<rparr> = 1 \<and>
   get_zipped_graph (snd (add_points
     \<lparr>base_size = 3, zipped_size = 3, compression_ratio = 1, point_order = 0,
      cached_ratios_sum = 0, ratio_value_points = [], zipped_graph = []\<rparr>
     [PyInt 5, PyFloat (1 / 2), PyInt 0])) = [(1, PyInt 5), (2, PyFloat (1 / 2)), (3, PyInt 0)]"
proof -
  let ?g = "\<lparr>base_size = 3, zipped_size = 3, compression_ratio = 1, point_order = 0,
      cached_ratios_sum = 0, ratio_value_points = [], zipped_graph = []\<rparr>"
  let ?vs = "[PyInt 5, PyFloat (1 / 2), PyInt 0]"
  have i: "GraphZipper_init 3 3 = Inr ?g" by (simp add: GraphZipper_init_def)
  have le: "(3::int) \<le> 3" by simp
  have l: "int (length ?vs) = 3" by simp
  have n: "\<forall>v \<in> set ?vs. is_number v" by simp
  have u: "[1..3::int] = [1, 2, 3]" by (simp add: upto_rec1)
  from zipper_without_compression[OF i le l n]
  have "map fst (get_zipped_graph (snd (add_points ?g ?vs))) = [1, 2, 3]"
    and "map snd (get_zipped_graph (snd (add_points ?g ?vs))) = ?vs"
    by (simp_all only: u)
  then have "get_zipped_graph (snd (add_points ?g ?vs)) = zip [1, 2, 3] ?vs"
    by (metis zip_map_fst_snd)
  then show ?thesis by simp
qed

subsection \<open>GraphZipper: calls after the zipper is full\<close>

lemma add_points_catching_full:
  "base_size g \<le> point_order g \<Longrightarrow>
   fst (add_points_catching g vs) = replicate (length vs) (Inl already_full) \<and>
   zipped_graph (snd (add_points_catching g vs)) = zipped_graph g \<and>
   point_order (snd (add_points_catching g vs)) = point_order g + int (length vs)"
proof (induction vs arbitrary: g)
  case Nil
  then show ?case by simp
next
  case (Cons v vs)
  let ?g = "g\<lparr>point_order := point_order g + 1\<rparr>"
  have full: "base_size g < point_order g + 1" using Cons.prems by simp
  have "base_size ?g \<le> point_order ?g" using Cons.prems by simp
  from Cons.IH[OF this] show ?case
    by (auto simp: add_point_full[OF full] split: prod.splits)
qed

text \<open>
  C10: on a zipper whose counter has reached \<open>base_size\<close>, a further \<^verbatim>\<open>add_point\<close>
  raises the "already full" error, leaves \<^verbatim>\<open>get_zipped_graph\<close> as it was and
  increments \<open>point_order\<close>; so does every one of any number of further calls, the
  counter growing by one with each.
\<close>

theorem add_point_when_full:
  assumes "base_size g \<le> point_order g"
  shows "fst (add_point g v) = Inl already_full \<and>
         get_zipped_graph (snd (add_point g v)) = get_zipped_graph g \<and>
         point_order (snd (add_point g v)) = point_order g + 1 \<and>
         fst (add_points_catching g vs) = replicate (length vs) (Inl already_full) \<and>
         get_zipped_graph (snd (add_points_catching g vs)) = get_zipped_graph g \<and>
         point_order (snd (add_points_catching g vs)) = point_order g + int (length vs)"
proof -
  have full: "base_size g < point_order g + 1" using assms by simp
  show ?thesis
    using add_points_catching_full[OF assms, of vs]
    by (simp add: add_point_full[OF full] get_zipped_graph_def)
qed

theorem add_point_when_full_witness:
  "base_size (snd (add_points
      \<lparr>base_size = 2, zipped_size = 2, compression_ratio = 1, point_order = 0,
       cached_ratios_sum = 0, ratio_value_points = [], zipped_graph = []\<rparr>
      [PyInt 4, PyInt 6]))
   \<le> point_order (snd (add_points
      \<lparr>base_size = 2, zipped_size = 2, compression_ratio = 1, point_order = 0,
       cached_ratios_sum = 0, ratio_value_points = [], zipped_graph = []\<rparr>
      [PyInt 4, PyInt 6])) \<and>
   fst (add_points_catching (snd (add_points
      \<lparr>base_size = 2, zipped_size = 2, compression_ratio = 1, point_order = 0,
       cached_ratios_sum = 0, ratio_value_points = [], zipped_graph = []\<rparr>
      [PyInt 4, PyInt 6])) [PyInt 1, PyInt 2, PyInt 3])
     = [Inl already_full, Inl already_full, Inl already_full] \<and>
   get_zipped_graph (snd (add_points_catching (snd (add_points
      \<lparr>base_size = 2, zipped_size = 2, compression_ratio = 1, point_order = 0,
       cached_ratios_sum = 0, ratio_value_points = [], zipped_graph = []\<rparr>
      [PyInt 4, PyInt 6])) [PyInt 1, PyInt 2, PyInt 3])) = [(1, PyInt 4), (2, PyInt 6)] \<and>
   point_order (snd (add_points_catching (snd (add_points
      \<lparr>base_size = 2, zipped_size = 2, compression_ratio = 1, point_order = 0,
       cached_ratios_sum = 0, ratio_value_points = [], zipped_graph = []\<rparr>
      [PyInt 4, PyInt 6])) [PyInt 1, PyInt 2, PyInt 3])) = 5"
proof -
  let ?g0 = "\<lparr>base_size = 2, zipped_size = 2, compression_ratio = 1, point_order = 0,
       cached_ratios_sum = 0, ratio_value_points = [], zipped_graph = []\<rparr>"
  have a: "snd (add_points ?g0 [PyInt 4, PyInt 6]) =
     \<lparr>base_size = 2, zipped_size = 2, compression_ratio = 1, point_order = 2,
       cached_ratios_sum = 0, ratio_value_points = [],
       zipped_graph = [(1, PyInt 4), (2, PyInt 6)]\<rparr>"
    by (simp add: add_point_def Let_def)
  have h: "base_size (snd (add_points ?g0 [PyInt 4, PyInt 6]))
           \<le> point_order (snd (add_points ?g0 [PyInt 4, PyInt 6]))"
    unfolding a by simp
  from add_point_when_full[OF h, of _ "[PyInt 1, PyInt 2, PyInt 3]"] h
  show ?thesis unfolding a by (simp add: get_zipped_graph_def)
qed

subsection \<open>GraphZipper: the flushed point\<close>

text \<open>
  C3: whenever an \<^verbatim>\<open>add_point\<close> on a zipper with compression ratio above 1 adds a
  point to the output, the call succeeded, the window was full, and the point added
  has the position of the specification (1 near the start, else \<open>base_size\<close> at the
  last point, else \<open>point_order\<close> less half the ratio rounded down, for the incremented
  \<open>point_order\<close>) and the value of the specification: the weighted sum over the pending
  contributions, the closing share of the incoming value included, over the ratio.
\<close>

theorem add_point_flushed_point:
  assumes "1 < compression_ratio g"
    and "zipped_graph (snd (add_point g v)) \<noteq> zipped_graph g"
  shows "fst (add_point g v) = Inr () \<and>
    \<not> cached_ratios_sum g + 1 < compression_ratio g \<and>
    zipped_graph (snd (add_point g v)) = zipped_graph g @
      [(spec_flush_position (point_order (snd (add_point g v))) (base_size g) (compression_ratio g),
        PyFloat (spec_flush_value
          (ratio_value_points g @
             [(compression_ratio g - cached_ratios_sum g,
               to_real (if is_number v then v else PyInt 0))])
          (compression_ratio g)))]"
proof -
  have pos: "0 \<le> compression_ratio g / 2" using assms(1) by simp
  have sm: "(\<Sum>p\<leftarrow>xs. fst p * snd p) = (\<Sum>(w, x)\<leftarrow>xs. w * x)" for xs :: "(real \<times> real) list"
    by (simp add: case_prod_unfold)
  show ?thesis
    using assms pos
    by (auto simp: add_point_def Let_def get_zipped_point_def spec_flush_position_def
          spec_flush_value_def py_int_def sm split: if_splits)
qed

theorem add_point_flushed_point_witness:
  "1 < compression_ratio
     \<lparr>base_size = 5, zipped_size = 2, compression_ratio = 5 / 2, point_order = 4,
      cached_ratios_sum = 3 / 2, ratio_value_points = [(1 / 2, 3), (1, 8)],
      zipped_graph = [(1, PyFloat 2)]\<rparr> \<and>
   zipped_graph (snd (add_point
     \<lparr>base_size = 5, zipped_size = 2, compression_ratio = 5 / 2, point_order = 4,
      cached_ratios_sum = 3 / 2, ratio_value_points = [(1 / 2, 3), (1, 8)],
      zipped_graph = [(1, PyFloat 2)]\<rparr> (PyInt 10)))
     = [(1, PyFloat 2), (5, PyFloat (39 / 5))]"
proof -
  let ?g = "\<lparr>base_size = 5, zipped_size = 2, compression_ratio = 5 / 2, point_order = 4,
      cached_ratios_sum = 3 / 2, ratio_value_points = [(1 / 2, 3), (1, 8)],
      zipped_graph = [(1, PyFloat 2)]\<rparr>"
  have r: "1 < compression_ratio ?g" by simp
  have c: "zipped_graph (snd (add_point ?g (PyInt 10))) \<noteq> zipped_graph ?g"
    by (simp add: add_point_def Let_def get_zipped_point_def)
  from add_point_flushed_point[OF r c] r
  show ?thesis
    by (simp add: spec_flush_position_def spec_flush_value_def add_point_order)
qed

subsection \<open>percentile\<close>

lemma getitem_in_range:
  "0 \<le> i \<Longrightarrow> i < int (length xs) \<Longrightarrow> getitem xs i = Inr (xs ! nat i)"
  by (simp add: getitem_def)

lemma percentile_rank_bounds:
  fixes percent :: real and n :: nat
  assumes "0 < n" "0 \<le> percent" "percent \<le> 1"
  defines "k \<equiv> real_of_int (int n - 1) * percent"
  shows "0 \<le> k" and "0 \<le> \<lfloor>k\<rfloor>" and "\<lfloor>k\<rfloor> < int n" and "0 \<le> \<lceil>k\<rceil>" and "\<lceil>k\<rceil> < int n"
proof -
  have n1: "0 \<le> real_of_int (int n - 1)" using assms(1) by simp
  show k0: "0 \<le> k" unfolding k_def using n1 assms(2) by simp
  have "k \<le> real_of_int (int n - 1) * 1"
    unfolding k_def using n1 assms(3) by (intro mult_left_mono) simp_all
  then have kn: "k \<le> real_of_int (int n - 1)" by simp
  show "0 \<le> \<lfloor>k\<rfloor>" using k0 by simp
  have "\<lfloor>k\<rfloor> \<le> \<lfloor>real_of_int (int n - 1)\<rfloor>" using kn by (rule floor_mono)
  also have "\<dots> = int n - 1" by (rule floor_of_int)
  finally show "\<lfloor>k\<rfloor> < int n" by simp
  show "0 \<le> \<lceil>k\<rceil>" using k0 by (simp add: order_trans[OF _ le_of_int_ceiling])
  have "\<lceil>k\<rceil> \<le> \<lceil>real_of_int (int n - 1)\<rceil>" using kn by (rule ceiling_mono)
  also have "\<dots> = int n - 1" by (rule ceiling_of_int)
  finally show "\<lceil>k\<rceil> < int n" by simp
qed

lemma percentile_general:
  assumes "values \<noteq> []" "0 \<le> percent" "percent \<le> 1"
  shows "fst (percentile values percent) = Inr (Some (spec_percentile values percent))"
proof -
  define n where "n = length values"
  define k where "k = (real (length values) - 1) * percent"
  have n0: "0 < n" using assms(1) by (simp add: n_def)
  have kk: "(real (length values) - 1) * percent = k" by (simp add: k_def)
  have "real_of_int (int n - 1) * percent = k" by (simp add: k_def n_def)
  note b = percentile_rank_bounds[OF n0 assms(2,3), unfolded this]
  have k': "real (length values - Suc 0) * percent = k"
    using assms(1) by (cases "values") (simp_all add: k_def)
  have gf: "getitem (sort values) \<lfloor>k\<rfloor> = Inr (sort values ! nat \<lfloor>k\<rfloor>)"
    using b(2,3) by (intro getitem_in_range) (simp_all add: n_def)
  have gc: "getitem (sort values) \<lceil>k\<rceil> = Inr (sort values ! nat \<lceil>k\<rceil>)"
    using b(4,5) by (intro getitem_in_range) (simp_all add: n_def)
  have pk: "py_int k = \<lfloor>k\<rfloor>" using b(1) by (simp add: py_int_def)
  have fc: "(\<lfloor>k\<rfloor> = \<lceil>k\<rceil>) = (k = real_of_int \<lfloor>k\<rfloor>)"
  proof
    assume e: "\<lfloor>k\<rfloor> = \<lceil>k\<rceil>"
    have lo: "real_of_int \<lfloor>k\<rfloor> \<le> k" by (rule of_int_floor_le)
    have hi: "k \<le> real_of_int \<lfloor>k\<rfloor>" unfolding e by (rule le_of_int_ceiling)
    show "k = real_of_int \<lfloor>k\<rfloor>" using hi lo by (rule order.antisym)
  next
    assume "k = real_of_int \<lfloor>k\<rfloor>"
    then have "\<lceil>k\<rceil> = \<lceil>real_of_int \<lfloor>k\<rfloor>\<rceil>" by simp
    also have "\<dots> = \<lfloor>k\<rfloor>" by (rule ceiling_of_int)
    finally show "\<lfloor>k\<rfloor> = \<lceil>k\<rceil>" by simp
  qed
  have sp: "spec_percentile values percent =
     (if k = real_of_int \<lfloor>k\<rfloor> then sort values ! nat \<lfloor>k\<rfloor>
      else sort values ! nat \<lfloor>k\<rfloor> * (real_of_int \<lceil>k\<rceil> - k)
           + sort values ! nat \<lceil>k\<rceil> * (k - real_of_int \<lfloor>k\<rfloor>))"
    by (simp add: spec_percentile_def Let_def k')
  show ?thesis
  proof (cases "\<lfloor>k\<rfloor> = \<lceil>k\<rceil>")
    case True
    then have "k = real_of_int \<lfloor>k\<rfloor>" using fc by simp
    then show ?thesis
      using assms(1) True by (simp add: percentile_def Let_def kk pk gf gc sp)
  next
    case False
    then have "k \<noteq> real_of_int \<lfloor>k\<rfloor>" using fc by simp
    then show ?thesis
      using assms(1) False by (simp add: percentile_def Let_def kk gf gc sp)
  qed
qed

text \<open>
  C8: on a non-empty list and a percent in \<open>[0, 1]\<close>, \<^verbatim>\<open>percentile\<close> returns the
  linear-interpolation percentile of the sorted values at rank \<open>(n - 1) * percent\<close>;
  \<^verbatim>\<open>percentile([1,2,3,4], 0.5)\<close> is 2.5 and \<^verbatim>\<open>percentile([10], 0.9)\<close> is 10.
\<close>

theorem percentile_interpolates:
  "(values \<noteq> [] \<longrightarrow> 0 \<le> percent \<longrightarrow> percent \<le> 1 \<longrightarrow>
      fst (percentile values percent) = Inr (Some (spec_percentile values percent))) \<and>
   fst (percentile [1, 2, 3, 4] (5 / 10)) = Inr (Some (25 / 10)) \<and>
   fst (percentile [10] (9 / 10)) = Inr (Some 10)"
proof (intro conjI impI)
  show "fst (percentile [1, 2, 3, 4] (5 / 10)) = Inr (Some (25 / 10))"
    by (simp add: percentile_def getitem_def py_int_def Let_def ceiling_altdef)
  show "fst (percentile [10] (9 / 10)) = Inr (Some 10)"
    by (simp add: percentile_def getitem_def py_int_def Let_def)
qed (rule percentile_general)

theorem percentile_interpolates_witness:
  "[3, 1, 2 :: real] \<noteq> [] \<and> (0::real) \<le> 1 / 4 \<and> (1 / 4 :: real) \<le> 1 \<and>
   fst (percentile [3, 1, 2] (1 / 4)) = Inr (Some (3 / 2)) \<and>
   spec_percentile [3, 1, 2] (1 / 4) = 3 / 2"
proof -
  have s: "spec_percentile [3, 1, 2] (1 / 4) = 3 / 2"
    by (simp add: spec_percentile_def Let_def ceiling_altdef)
  from percentile_interpolates[of "[3, 1, 2]" "1 / 4"] s
  show ?thesis by simp
qed

subsection \<open>get_atomic_actions_data\<close>

text \<open>
  C5 as stated fails: a record with \<open>error = false\<close> whose atomic-actions mapping is
  empty is taken, and the names of a later record with a non-empty mapping are not.
\<close>

theorem action_names_from_empty_mapping:
  "find_atomic_actions
     [\<lparr>error = False, atomic_actions = Some [], duration = 1\<rparr>,
      \<lparr>error = False, atomic_actions = Some [(''a'', Some 2)], duration = 3\<rparr>] = [] \<and>
   spec_action_names
     [\<lparr>error = False, atomic_actions = Some [], duration = 1\<rparr>,
      \<lparr>error = False, atomic_actions = Some [(''a'', Some 2)], duration = 3\<rparr>] = [''a''] \<and>
   get_atomic_actions_data
     [\<lparr>error = False, atomic_actions = Some [], duration = 1\<rparr>,
      \<lparr>error = False, atomic_actions = Some [(''a'', Some 2)], duration = 3\<rparr>]
     = Inr [(''total'', [1, 3])]"
  by (simp add: spec_action_names_def get_atomic_actions_data_def)

lemma find_atomic_actions_find:
  "find_atomic_actions raw_data =
     (case find (\<lambda>r. \<not> error r \<and> atomic_actions r \<noteq> None) raw_data of
        None \<Rightarrow> []
      | Some r \<Rightarrow> (case atomic_actions r of None \<Rightarrow> [] | Some d \<Rightarrow> map fst d))"
  by (induction raw_data) auto

lemma action_values_ok:
  "\<forall>r \<in> set raw_data. atomic_actions r \<noteq> None \<Longrightarrow> \<exists>vs. action_values a raw_data = Inr vs"
  by (induction raw_data) (auto split: option.splits)

lemma collect_actions_ok:
  "\<forall>r \<in> set raw_data. atomic_actions r \<noteq> None \<Longrightarrow>
   \<exists>d. collect_actions names raw_data acc = Inr d"
proof (induction names arbitrary: acc)
  case Nil
  then show ?case by simp
next
  case (Cons a names)
  from action_values_ok[OF Cons.prems, of a] obtain vs where "action_values a raw_data = Inr vs" ..
  then show ?case using Cons.IH[OF Cons.prems] by simp
qed

lemma collect_actions_keys:
  "collect_actions names raw_data acc = Inr d \<Longrightarrow> fst ` set d = fst ` set acc \<union> set names"
proof (induction names arbitrary: acc)
  case Nil
  then show ?case by simp
next
  case (Cons a names)
  then show ?case by (auto simp: AList.dom_update split: sum.splits)
qed

text \<open>
  C5, amended: the action names are the keys of the first record with
  \<open>error = false\<close> that has an atomic-actions mapping, be it empty (none if there is
  no such record); the call returns whenever every record has the mapping, and a
  returned result has exactly these names and \<open>total\<close> as keys, and maps \<open>total\<close> to
  the durations of the records with \<open>error = false\<close>, in the order of the records.
\<close>

theorem atomic_actions_names_and_total:
  "find_atomic_actions raw_data =
     (case find (\<lambda>r. \<not> error r \<and> atomic_actions r \<noteq> None) raw_data of
        None \<Rightarrow> []
      | Some r \<Rightarrow> (case atomic_actions r of None \<Rightarrow> [] | Some d \<Rightarrow> map fst d)) \<and>
   ((\<forall>r \<in> set raw_data. atomic_actions r \<noteq> None) \<longrightarrow>
      (\<exists>d. get_atomic_actions_data raw_data = Inr d)) \<and>
   (get_atomic_actions_data raw_data = Inr d \<longrightarrow>
      fst ` set d = set (find_atomic_actions raw_data) \<union> {''total''} \<and>
      map_of d ''total'' = Some (map duration (filter (\<lambda>r. \<not> error r) raw_data)))"
proof (intro conjI impI)
  show "find_atomic_actions raw_data =
     (case find (\<lambda>r. \<not> error r \<and> atomic_actions r \<noteq> None) raw_data of
        None \<Rightarrow> []
      | Some r \<Rightarrow> (case atomic_actions r of None \<Rightarrow> [] | Some d \<Rightarrow> map fst d))"
    by (rule find_atomic_actions_find)
next
  assume "\<forall>r \<in> set raw_data. atomic_actions r \<noteq> None"
  from collect_actions_ok[OF this]
  obtain d0 where "collect_actions (find_atomic_actions raw_data) raw_data [] = Inr d0" ..
  then show "\<exists>d. get_atomic_actions_data raw_data = Inr d"
    by (simp add: get_atomic_actions_data_def)
next
  assume r: "get_atomic_actions_data raw_data = Inr d"
  then obtain d0 where c: "collect_actions (find_atomic_actions raw_data) raw_data [] = Inr d0"
    and d: "d = AList.update ''total'' (map duration (filter (\<lambda>r. \<not> error r) raw_data)) d0"
    by (auto simp: get_atomic_actions_data_def split: sum.splits)
  from collect_actions_keys[OF c]
  show "fst ` set d = set (find_atomic_actions raw_data) \<union> {''total''}"
    by (simp add: d AList.dom_update Un_commute del: AList.update.simps)
  show "map_of d ''total'' = Some (map duration (filter (\<lambda>r. \<not> error r) raw_data))"
    by (simp add: d AList.update_conv')
qed

theorem atomic_actions_names_and_total_witness:
  "get_atomic_actions_data
     [\<lparr>error = True, atomic_actions = Some [], duration = 9\<rparr>,
      \<lparr>error = False, atomic_actions = Some [(''a'', Some 1)], duration = 2\<rparr>,
      \<lparr>error = False, atomic_actions = Some [(''a'', Some 4)], duration = 5\<rparr>]
     = Inr [(''a'', [1, 4]), (''total'', [2, 5])] \<and>
   fst ` set [(''a'', [1, 4 :: real]), (''total'', [2, 5])] = set [''a''] \<union> {''total''} \<and>
   map_of [(''a'', [1, 4 :: real]), (''total'', [2, 5])] ''total'' = Some [2, 5]"
proof -
  let ?raw = "[\<lparr>error = True, atomic_actions = Some [], duration = 9\<rparr>,
      \<lparr>error = False, atomic_actions = Some [(''a'', Some 1)], duration = 2\<rparr>,
      \<lparr>error = False, atomic_actions = Some [(''a'', Some 4)], duration = 5\<rparr>]"
  have h: "\<forall>r \<in> set ?raw. atomic_actions r \<noteq> None" by simp
  have g: "get_atomic_actions_data ?raw = Inr [(''a'', [1, 4]), (''total'', [2, 5])]"
    by (simp add: get_atomic_actions_data_def)
  have n: "find_atomic_actions ?raw = [''a'']" by simp
  from atomic_actions_names_and_total[of ?raw "[(''a'', [1, 4]), (''total'', [2, 5])]"] h g n
  show ?thesis by simp
qed

subsection \<open>compress\<close>

text \<open>
  C1 fails for the limit 0: the docstring calls \<open>limit\<close> the "max length of result
  list", and with \<open>limit = 0\<close> a one-item list is compressed to one point, not to
  none. The factor is 0, no point is flushed during the walk, and the run that
  is still open after the walk is flushed as a final point.
\<close>

theorem compress_limit_zero_returns_a_point:
  "compress round2 [x] 0 None None = Inr [(1, default_normalize round2 x)] \<and>
   length [(1 :: int, default_normalize round2 x)] = 1 \<and>
   int (length [x]) > 0"
  by (simp add: compress_def)


lemma compress_inv_step:
  assumes f: "0 < factor" "factor < 1" and inv: "compress_inv factor i (store, cur, result)"
  shows "compress_inv factor (i + 1)
           (if store + factor > 1 then (store + factor - 1, None, result @ [(i, cv)])
            else (store + factor, Some cv, result))"
proof -
  have i1: "1 \<le> i" and s0: "0 \<le> store" and s1: "store \<le> 1"
    and eq: "store = real_of_int (i - 1) * factor - real (length result)"
    and so: "sorted_wrt (<) (map fst result)"
    and qs: "list_all (\<lambda>q. 1 \<le> q \<and> q < i) (map fst result)"
    using inv by (simp_all add: compress_inv_def)
  have below: "\<forall>q \<in> set (map fst result). q < i"
    using qs by (auto simp: list_all_iff)
  have qs': "list_all (\<lambda>q. 1 \<le> q \<and> q < i + 1) (map fst result)"
    using qs by (auto simp: list_all_iff)
  have lt: "list_all (\<lambda>q. q < i) (map fst result)"
    using qs by (auto simp: list_all_iff)
  have eq1: "store + factor = real_of_int i * factor - real (length result)"
    using eq by (simp add: algebra_simps)
  show ?thesis
  proof (cases "store + factor > 1")
    case True
    have "sorted_wrt (<) (map fst result @ [i])"
      using so below by (simp add: sorted_wrt_append)
    then show ?thesis
      using True f i1 s1 eq1 qs' by (simp add: compress_inv_def)
  next
    case False
    then show ?thesis
      using f i1 s0 eq1 so qs' lt by (simp add: compress_inv_def)
  qed
qed

lemma compress_loop_inv:
  assumes "0 < factor" "factor < 1"
  shows "compress_inv factor i st \<Longrightarrow>
         compress_inv factor (i + int (length xs))
           (compress_loop merge_f normalize_f factor (enumerate i xs) st)"
proof (induction xs arbitrary: i st)
  case Nil
  then show ?case by simp
next
  case (Cons x xs)
  obtain store cur result where st: "st = (store, cur, result)" by (cases st)
  define cv where "cv = (case cur of None \<Rightarrow> normalize_f x | Some c \<Rightarrow> merge_f c x)"
  define st' where "st' = (if store + factor > 1 then (store + factor - 1, None, result @ [(i, cv)])
            else (store + factor, Some cv, result))"
  have inv': "compress_inv factor (i + 1) st'"
    unfolding st'_def using assms Cons.prems[unfolded st] by (rule compress_inv_step)
  have "compress_loop merge_f normalize_f factor (enumerate i (x # xs)) st =
        compress_loop merge_f normalize_f factor (enumerate (i + 1) xs) st'"
    by (simp add: st st'_def cv_def Let_def)
  then show ?case using Cons.IH[OF inv'] by (simp add: add.assoc)
qed

text \<open>
  From the limit 1 up the bound holds: with \<open>1 \<le> limit < len(data)\<close> the result
  has \<open>limit\<close> points (in exact arithmetic), the positions are strictly increasing
  and between 1 and \<open>len(data)\<close>, and the last position is \<open>len(data)\<close>, the
  final point being the flush of the run that is open after the walk.
\<close>

lemma compress_within_limit:
  assumes "1 \<le> limit" and "limit < int (length data)"
  shows "\<exists>ps. compress round2 data limit merge_opt normalize_opt = Inr ps \<and>
           int (length ps) = limit \<and>
           sorted_wrt (<) (map fst ps) \<and>
           list_all (\<lambda>q. 1 \<le> q \<and> q \<le> int (length data)) (map fst ps) \<and>
           last (map fst ps) = int (length data)"
proof -
  define n where "n = length data"
  define factor where "factor = real_of_int limit / real n"
  define normalize_f where
    "normalize_f = (case normalize_opt of None \<Rightarrow> default_normalize round2 | Some f \<Rightarrow> f)"
  define merge_f where
    "merge_f = (case merge_opt of None \<Rightarrow> default_merge normalize_f | Some m \<Rightarrow> m)"
  define st where
    "st = compress_loop merge_f normalize_f factor (enumerate 1 data) (0, None, [])"
  obtain store cur result where st_eq: "st = (store, cur, result)" by (cases st)
  have n0: "0 < n" using assms by (cases data) (simp_all add: n_def)
  have f0: "0 < factor" and f1: "factor < 1"
    using assms n0 by (simp_all add: factor_def n_def)
  have nf: "real n * factor = real_of_int limit" using n0 by (simp add: factor_def)
  have "compress_inv factor 1 (0, None, [])" by (simp add: compress_inv_def)
  from compress_loop_inv[OF f0 f1 this, of data merge_f normalize_f]
  have inv: "compress_inv factor (1 + int n) (store, cur, result)"
    by (simp add: st_def[symmetric] st_eq n_def)
  have s0: "0 < store" and s1: "store \<le> 1"
    and eq: "store = real_of_int limit - real (length result)"
    and so: "sorted_wrt (<) (map fst result)"
    and qs: "list_all (\<lambda>q. 1 \<le> q \<and> q < 1 + int n) (map fst result)"
    and cn: "cur = None \<longrightarrow> store < 1"
    and cs: "cur \<noteq> None \<longrightarrow> list_all (\<lambda>q. q < int n) (map fst result)"
    using inv n0 nf by (auto simp: compress_inv_def split: if_splits)
  have "real_of_int (limit - int (length result)) = store" using eq by simp
  then have "0 < real_of_int (limit - int (length result))"
    and "real_of_int (limit - int (length result)) \<le> 1" using s0 s1 by simp_all
  then have "0 < limit - int (length result)" and "limit - int (length result) \<le> 1"
    by linarith+
  then have len: "int (length result) = limit - 1" by simp
  then have "store = 1" using eq by simp
  then obtain cv where cur: "cur = Some cv" using cn by (cases cur) simp_all
  have below: "\<forall>q \<in> set (map fst result). q < int n"
    using cs cur by (simp add: list_all_iff)
  have res: "compress round2 data limit merge_opt normalize_opt = Inr (result @ [(int n, cv)])"
    using assms n0 st_eq cur
    by (simp add: compress_def Let_def normalize_f_def[symmetric] merge_f_def[symmetric]
          n_def[symmetric] factor_def[symmetric] st_def[symmetric])
  have "sorted_wrt (<) (map fst (result @ [(int n, cv)]))"
    using so below by (simp add: sorted_wrt_append)
  moreover have "list_all (\<lambda>q. 1 \<le> q \<and> q \<le> int n) (map fst (result @ [(int n, cv)]))"
    using qs n0 by (auto simp: list_all_iff)
  moreover have "int (length (result @ [(int n, cv)])) = limit" using len by simp
  moreover have "last (map fst (result @ [(int n, cv)])) = int n" by simp
  ultimately show ?thesis unfolding res n_def[symmetric] by blast
qed

subsection \<open>GraphZipper in floating point: the exact model as the instance without rounding\<close>

lemma weighted_sum_fp_exact:
  "foldl (\<lambda>acc p. acc + fst p * snd p) a ps = a + (\<Sum>p\<leftarrow>ps. fst p * snd p)"
  by (induction ps arbitrary: a) (simp_all add: add.assoc)

lemma get_zipped_point_fp_exact: "get_zipped_point_fp (\<lambda>x. x) g = get_zipped_point g"
  by (simp add: get_zipped_point_fp_def get_zipped_point_def weighted_sum_fp_def
        weighted_sum_fp_exact)

lemma add_point_fp_exact: "add_point_fp (\<lambda>x. x) g v = add_point g v"
  by (simp add: add_point_fp_def add_point_def get_zipped_point_fp_exact Let_def)

lemma GraphZipper_init_fp_exact: "GraphZipper_init_fp (\<lambda>x. x) bs zs = GraphZipper_init bs zs"
  by (simp add: GraphZipper_init_fp_def GraphZipper_init_def)

subsection \<open>GraphZipper in floating point: rounding\<close>

lemma rounding_mono: "is_rounding rnd eps N \<Longrightarrow> x \<le> y \<Longrightarrow> rnd x \<le> rnd y"
  by (simp add: is_rounding_def)

lemma rounding_idem: "is_rounding rnd eps N \<Longrightarrow> rnd (rnd x) = rnd x"
  by (simp add: is_rounding_def)

lemma rounding_int:
  "is_rounding rnd eps N \<Longrightarrow> \<bar>n\<bar> \<le> N \<Longrightarrow> rnd (real_of_int n) = real_of_int n"
  by (simp add: is_rounding_def)

lemma rounding_err:
  "is_rounding rnd eps N \<Longrightarrow> 1 / 2 \<le> \<bar>x\<bar> \<Longrightarrow> \<bar>rnd x - x\<bar> \<le> eps * \<bar>x\<bar>"
  by (simp add: is_rounding_def)

lemma rounding_exact_diff:
  "is_rounding rnd eps N \<Longrightarrow> rnd x = x \<Longrightarrow> rnd y = y \<Longrightarrow> y / 2 \<le> x \<Longrightarrow> x \<le> 2 * y \<Longrightarrow>
   rnd (x - y) = x - y"
  by (simp add: is_rounding_def)

lemma rounding_0: "is_rounding rnd eps N \<Longrightarrow> 0 \<le> N \<Longrightarrow> rnd 0 = 0"
  using rounding_int[of rnd eps N 0] by simp

lemma rounding_1: "is_rounding rnd eps N \<Longrightarrow> 1 \<le> N \<Longrightarrow> rnd 1 = 1"
  using rounding_int[of rnd eps N 1] by simp

lemma rounding_eps_nonneg:
  assumes "is_rounding rnd eps N" "1 \<le> N"
  shows "0 \<le> eps"
proof -
  have "\<bar>rnd 1 - 1\<bar> \<le> eps * \<bar>1\<bar>" using assms(1) by (intro rounding_err) simp_all
  then show ?thesis using rounding_1[OF assms] by simp
qed

text \<open>One accumulating step of the cached weight.\<close>

lemma accumulate_core:
  assumes R: "is_rounding rnd eps N" and N: "r + 1 \<le> real_of_int N"
    and c: "- (1 / 2) \<le> c" "c < r" and r: "1 < r"
  shows "0 \<le> rnd (c + 1)"
    and "\<bar>rnd (c + 1) - (c + 1)\<bar> \<le> eps * (r + 2)"
    and "real_of_int \<lceil>rnd (c + 1)\<rceil> \<le> real_of_int \<lceil>c\<rceil> + 1"
proof -
  have N1: "1 \<le> N" using N r by linarith
  have e0: "0 \<le> eps" using R N1 by (rule rounding_eps_nonneg)
  have "rnd 0 \<le> rnd (c + 1)" using R by (rule rounding_mono) (use c in simp)
  then show "0 \<le> rnd (c + 1)" using rounding_0[OF R] N1 by simp
  have "\<bar>rnd (c + 1) - (c + 1)\<bar> \<le> eps * \<bar>c + 1\<bar>"
    using R by (rule rounding_err) (use c in simp)
  also have "\<dots> \<le> eps * (r + 2)"
    using e0 c by (intro mult_left_mono) simp_all
  finally show "\<bar>rnd (c + 1) - (c + 1)\<bar> \<le> eps * (r + 2)" .
  have cN: "\<bar>\<lceil>c\<rceil> + 1\<bar> \<le> N"
  proof -
    have "real_of_int \<lceil>c\<rceil> < c + 1" by linarith
    then have "real_of_int (\<lceil>c\<rceil> + 1) < real_of_int N + 1" using c N by simp
    then have "\<lceil>c\<rceil> + 1 \<le> N" by linarith
    moreover have "0 \<le> \<lceil>c\<rceil>" using c by (simp add: le_ceiling_iff)
    ultimately show ?thesis by simp
  qed
  have "rnd (c + 1) \<le> rnd (real_of_int (\<lceil>c\<rceil> + 1))"
    using R by (rule rounding_mono) (simp add: le_of_int_ceiling)
  also have "\<dots> = real_of_int (\<lceil>c\<rceil> + 1)" using R cN by (rule rounding_int)
  finally have "\<lceil>rnd (c + 1)\<rceil> \<le> \<lceil>c\<rceil> + 1" by (simp add: ceiling_le_iff)
  then show "real_of_int \<lceil>rnd (c + 1)\<rceil> \<le> real_of_int \<lceil>c\<rceil> + 1" by linarith
qed

text \<open>One flushing step: the closing share \<open>rest\<close> and the weight carried over.\<close>

lemma flush_core:
  assumes R: "is_rounding rnd eps N" and N: "1 \<le> N"
    and c: "- (1 / 2) \<le> c" "c < r" "rnd c = c" and r: "1 < r" "rnd r = r"
    and full: "r \<le> rnd (c + 1)"
    and small: "eps * r \<le> 1 / 5" "eps \<le> 1 / 10"
  shows "rnd (1 - rnd (r - c)) \<le> 1"
    and "- (1 / 2) \<le> rnd (1 - rnd (r - c))"
    and "\<bar>rnd (1 - rnd (r - c)) - (c + 1 - r)\<bar> \<le> eps * (r + 2)"
proof -
  define rest where "rest = rnd (r - c)"
  define c' where "c' = rnd (1 - rest)"
  have e0: "0 \<le> eps" using R N by (rule rounding_eps_nonneg)
  have r0: "rnd 0 = 0" and r1: "rnd 1 = 1" using rounding_0[OF R] rounding_1[OF R] N by simp_all
  have "rnd 0 \<le> rest" unfolding rest_def using R by (rule rounding_mono) (use c in simp)
  then have rest0: "0 \<le> rest" using r0 by simp
  have restF: "rnd rest = rest" unfolding rest_def using R by (rule rounding_idem)
  \<comment> \<open>the exact difference is at most a little above 1\<close>
  have d: "r - c \<le> 6 / 5"
  proof (cases "r \<le> c + 1")
    case True
    then show ?thesis by simp
  next
    case False
    have "\<bar>rnd (c + 1) - (c + 1)\<bar> \<le> eps * \<bar>c + 1\<bar>"
      using R by (rule rounding_err) (use c in simp)
    also have "\<dots> \<le> eps * r" using e0 c False by (intro mult_left_mono) simp_all
    finally have "rnd (c + 1) \<le> c + 1 + eps * r" by linarith
    then show ?thesis using full small by linarith
  qed
  have dpos: "0 < r - c" using c by simp
  have rest_err: "\<bar>rest - (r - c)\<bar> \<le> eps * (6 / 5)"
  proof (cases "r / 2 \<le> c")
    case True
    have "rnd (r - c) = r - c"
      using R r(2) c(3) by (rule rounding_exact_diff) (use True c r in simp_all)
    then show ?thesis using e0 by (simp add: rest_def)
  next
    case False
    have "\<bar>rnd (r - c) - (r - c)\<bar> \<le> eps * \<bar>r - c\<bar>"
      using R by (rule rounding_err) (use False r in simp)
    also have "\<dots> \<le> eps * (6 / 5)" using e0 d dpos by (intro mult_left_mono) simp_all
    finally show ?thesis by (simp add: rest_def)
  qed
  have e65: "eps * (6 / 5) \<le> 3 / 25" using small(2) by simp
  have rest_hi: "rest \<le> 2" using rest_err d e65 by linarith
  have c'_err: "\<bar>c' - (1 - rest)\<bar> \<le> eps"
  proof (cases "1 / 2 \<le> rest")
    case True
    have "rnd (1 - rest) = 1 - rest"
      using R r1 restF by (rule rounding_exact_diff) (use True rest_hi in simp_all)
    then show ?thesis using e0 by (simp add: c'_def)
  next
    case False
    have "\<bar>rnd (1 - rest) - (1 - rest)\<bar> \<le> eps * \<bar>1 - rest\<bar>"
      using R by (rule rounding_err) (use False in simp)
    also have "\<dots> \<le> eps * 1" using e0 rest0 False by (intro mult_left_mono) simp_all
    finally show ?thesis by (simp add: c'_def)
  qed
  have "c' \<le> rnd 1" unfolding c'_def using R by (rule rounding_mono) (use rest0 in simp)
  then show "rnd (1 - rnd (r - c)) \<le> 1" using r1 by (simp add: c'_def rest_def)
  show "- (1 / 2) \<le> rnd (1 - rnd (r - c))"
    using c'_err rest_err d e65 small(2) unfolding c'_def rest_def by linarith
  have "eps * (6 / 5) + eps \<le> eps * (r + 2)"
  proof -
    have "eps * (11 / 5) \<le> eps * (r + 2)" using e0 r by (intro mult_left_mono) simp_all
    then show ?thesis by (simp add: algebra_simps)
  qed
  then show "\<bar>rnd (1 - rnd (r - c)) - (c + 1 - r)\<bar> \<le> eps * (r + 2)"
    using c'_err rest_err unfolding c'_def rest_def by linarith
qed

text \<open>A difference above 1 of a kept integer and the ratio is not rounded down to 1.\<close>

lemma position_not_start:
  assumes R: "is_rounding rnd eps N" and N: "1 \<le> N"
    and k: "rnd k = k" and r: "1 < r" "rnd r = r" and d: "1 < k - r"
  shows "1 < rnd (k - r)"
proof (cases "k \<le> 2 * r")
  case True
  have "rnd (k - r) = k - r"
    using R k r(2) by (rule rounding_exact_diff) (use True d r in simp_all)
  then show ?thesis using d by simp
next
  case False
  have "rnd r \<le> rnd (k - r)" using R by (rule rounding_mono) (use False in simp)
  then show ?thesis using r by simp
qed

subsection \<open>GraphZipper in floating point: one step\<close>

lemma add_point_fp_ok:
  assumes "point_order g + 1 \<le> base_size g"
  shows "fst (add_point_fp rnd g v) = Inr ()"
    and "point_order (snd (add_point_fp rnd g v)) = point_order g + 1"
    and "base_size (snd (add_point_fp rnd g v)) = base_size g"
    and "compression_ratio (snd (add_point_fp rnd g v)) = compression_ratio g"
  using assms
  by (auto simp: add_point_fp_def Let_def get_zipped_point_fp_def split: sum.splits)

lemma add_points_fp_Cons_ok:
  "fst (add_point_fp rnd g v) = Inr () \<Longrightarrow>
   add_points_fp rnd g (v # vs) = add_points_fp rnd (snd (add_point_fp rnd g v)) vs"
  by (cases "add_point_fp rnd g v") (auto split: sum.splits)

lemma add_point_fp_accumulate:
  assumes "1 < compression_ratio g" "point_order g + 1 \<le> base_size g"
    and "rnd (cached_ratios_sum g + 1) < compression_ratio g"
  shows "point_order (snd (add_point_fp rnd g v)) = point_order g + 1"
    and "cached_ratios_sum (snd (add_point_fp rnd g v)) = rnd (cached_ratios_sum g + 1)"
    and "zipped_graph (snd (add_point_fp rnd g v)) = zipped_graph g"
    and "compression_ratio (snd (add_point_fp rnd g v)) = compression_ratio g"
    and "base_size (snd (add_point_fp rnd g v)) = base_size g"
  using assms by (simp_all add: add_point_fp_def Let_def)

lemma add_point_fp_flush:
  assumes "1 < compression_ratio g" "point_order g + 1 \<le> base_size g"
    and "\<not> rnd (cached_ratios_sum g + 1) < compression_ratio g"
  shows "point_order (snd (add_point_fp rnd g v)) = point_order g + 1"
    and "cached_ratios_sum (snd (add_point_fp rnd g v)) =
           rnd (1 - rnd (compression_ratio g - cached_ratios_sum g))"
    and "map fst (zipped_graph (snd (add_point_fp rnd g v))) =
           map fst (zipped_graph g) @
           [if rnd (rnd (real_of_int (point_order g + 1)) - compression_ratio g) \<le> 1 then 1
            else if point_order g + 1 = base_size g then base_size g
            else point_order g + 1 - py_int (rnd (compression_ratio g / 2))]"
    and "compression_ratio (snd (add_point_fp rnd g v)) = compression_ratio g"
    and "base_size (snd (add_point_fp rnd g v)) = base_size g"
  using assms
  by (simp_all add: add_point_fp_def Let_def get_zipped_point_fp_def)

lemma zipper_fp_ctx_facts:
  assumes "zipper_fp_ctx rnd eps N g"
  shows "is_rounding rnd eps N" and "1 < compression_ratio g"
    and "rnd (compression_ratio g) = compression_ratio g"
    and "compression_ratio g \<le> real_of_int (base_size g)"
    and "base_size g < N" and "2 \<le> base_size g" and "1 \<le> N"
    and "0 \<le> eps" and "eps \<le> 1 / 10" and "eps * compression_ratio g \<le> 1 / 5"
    and "compression_ratio g + 1 \<le> real_of_int N"
proof -
  show R: "is_rounding rnd eps N" and r1: "1 < compression_ratio g"
    and "rnd (compression_ratio g) = compression_ratio g"
    and rB: "compression_ratio g \<le> real_of_int (base_size g)"
    and BN: "base_size g < N"
    using assms by (simp_all add: zipper_fp_ctx_def)
  have sm: "eps * real_of_int (base_size g) \<le> 1 / 5"
    using assms by (simp add: zipper_fp_ctx_def)
  have "1 < real_of_int (base_size g)" using r1 rB by linarith
  then show B2: "2 \<le> base_size g" by linarith
  then show N1: "1 \<le> N" using BN by linarith
  show e0: "0 \<le> eps" using R N1 by (rule rounding_eps_nonneg)
  have "eps * 2 \<le> eps * real_of_int (base_size g)"
    using e0 B2 by (intro mult_left_mono) simp_all
  then show "eps \<le> 1 / 10" using sm by linarith
  have "eps * compression_ratio g \<le> eps * real_of_int (base_size g)"
    using e0 rB by (intro mult_left_mono) simp_all
  then show "eps * compression_ratio g \<le> 1 / 5" using sm by linarith
  have "real_of_int (base_size g) + 1 \<le> real_of_int N" using BN by linarith
  then show "compression_ratio g + 1 \<le> real_of_int N" using rB by linarith
qed

lemma zipper_fp_ctx_step:
  assumes "zipper_fp_ctx rnd eps N g" "point_order g + 1 \<le> base_size g"
  shows "zipper_fp_ctx rnd eps N (snd (add_point_fp rnd g v))"
  using assms add_point_fp_ok(3,4)[OF assms(2), of rnd v]
  by (simp add: zipper_fp_ctx_def)

lemma zipper_fp_inv_accumulate:
  assumes ctx: "zipper_fp_ctx rnd eps N g" and inv: "zipper_fp_inv rnd eps g"
    and le: "point_order g + 1 \<le> base_size g"
    and acc: "rnd (cached_ratios_sum g + 1) < compression_ratio g"
  shows "zipper_fp_inv rnd eps (snd (add_point_fp rnd g v))"
proof -
  define r where "r = compression_ratio g"
  define c where "c = cached_ratios_sum g"
  define k where "k = point_order g"
  define B where "B = base_size g"
  define zg where "zg = zipped_graph g"
  define m where "m = py_int (rnd (r / 2))"
  define c' where "c' = rnd (c + 1)"
  note cf = zipper_fp_ctx_facts[OF ctx, folded r_def B_def]
  have R: "is_rounding rnd eps N" by (rule cf(1))
  have k0: "0 \<le> k" and kB: "k + 1 \<le> B" and cF: "rnd c = c" and cr: "c < r" and c0: "- (1 / 2) \<le> c"
    and w: "\<bar>real (length zg) * r + c - real_of_int k\<bar> \<le> real_of_int k * (eps * (r + 2))"
    and first: "zg = [] \<longrightarrow> c = real_of_int k"
    and room: "zg \<noteq> [] \<longrightarrow> real_of_int \<lceil>c\<rceil> + r \<le> real_of_int k + 1"
    and exact: "r = real_of_int \<lfloor>r\<rfloor> \<longrightarrow>
                  c = real_of_int \<lfloor>c\<rfloor> \<and> real (length zg) * r + c = real_of_int k"
    and so: "sorted_wrt (<) (map fst zg)"
    and q: "\<forall>q \<in> set (map fst zg). 1 \<le> q \<and> q \<le> k \<and> (q = 1 \<or> q + m \<le> k \<or> k = B)"
    using inv le
    by (simp_all add: zipper_fp_inv_def r_def c_def k_def B_def zg_def m_def)
  have acc': "c' < r" using acc by (simp add: c'_def c_def r_def)
  note s = add_point_fp_accumulate[where rnd = rnd and g = g and v = v,
      OF cf(2)[unfolded r_def] le acc, folded r_def c_def k_def B_def zg_def c'_def]
  note core = accumulate_core[OF R cf(11) c0 cr cf(2), folded c'_def]
  have c'F: "rnd c' = c'" unfolding c'_def using R by (rule rounding_idem)
  have kN: "\<bar>k + 1\<bar> \<le> N" using k0 kB cf(5) by simp
  have w': "\<bar>real (length zg) * r + c' - real_of_int (k + 1)\<bar>
              \<le> real_of_int (k + 1) * (eps * (r + 2))"
  proof -
    have "real_of_int (k + 1) * (eps * (r + 2)) = real_of_int k * (eps * (r + 2)) + eps * (r + 2)"
      by (simp add: algebra_simps)
    then show ?thesis using w core(2) by simp
  qed
  have first': "zg = [] \<longrightarrow> c' = real_of_int (k + 1)"
  proof
    assume "zg = []"
    then have "c + 1 = real_of_int (k + 1)" using first by simp
    then have "c' = rnd (real_of_int (k + 1))" by (simp only: c'_def)
    also have "\<dots> = real_of_int (k + 1)" using R kN by (rule rounding_int)
    finally show "c' = real_of_int (k + 1)" .
  qed
  have room': "zg \<noteq> [] \<longrightarrow> real_of_int \<lceil>c'\<rceil> + r \<le> real_of_int (k + 1) + 1"
    using room core(3) by auto
  have exact': "r = real_of_int \<lfloor>r\<rfloor> \<longrightarrow>
                  c' = real_of_int \<lfloor>c'\<rfloor> \<and> real (length zg) * r + c' = real_of_int (k + 1)"
  proof
    assume ri: "r = real_of_int \<lfloor>r\<rfloor>"
    with exact have ci: "c = real_of_int \<lfloor>c\<rfloor>" and e: "real (length zg) * r + c = real_of_int k"
      by simp_all
    have "0 \<le> \<lfloor>c\<rfloor>" using c0 ci by linarith
    moreover have "real_of_int (\<lfloor>c\<rfloor> + 1) \<le> real_of_int N" using ci cr cf(11) by linarith
    ultimately have "\<bar>\<lfloor>c\<rfloor> + 1\<bar> \<le> N" by simp
    with R have "rnd (real_of_int (\<lfloor>c\<rfloor> + 1)) = real_of_int (\<lfloor>c\<rfloor> + 1)" by (rule rounding_int)
    moreover have "c + 1 = real_of_int (\<lfloor>c\<rfloor> + 1)" using ci by simp
    ultimately have c'e: "c' = real_of_int (\<lfloor>c\<rfloor> + 1)" by (simp only: c'_def)
    then have "c' = real_of_int \<lfloor>c'\<rfloor>" by simp
    moreover have "real (length zg) * r + c' = real_of_int (k + 1)" using c'e e ci by simp
    ultimately show "c' = real_of_int \<lfloor>c'\<rfloor> \<and> real (length zg) * r + c' = real_of_int (k + 1)" ..
  qed
  have q': "\<forall>q \<in> set (map fst zg). 1 \<le> q \<and> q \<le> k + 1 \<and> (q = 1 \<or> q + m \<le> k + 1 \<or> k + 1 = B)"
  proof
    fix x assume "x \<in> set (map fst zg)"
    with q have "1 \<le> x \<and> x \<le> k \<and> (x = 1 \<or> x + m \<le> k \<or> k = B)" by blast
    with kB show "1 \<le> x \<and> x \<le> k + 1 \<and> (x = 1 \<or> x + m \<le> k + 1 \<or> k + 1 = B)" by linarith
  qed
  have c'0: "- (1 / 2) \<le> c'" using core(1) by simp
  show ?thesis
    unfolding zipper_fp_inv_def s
    unfolding r_def[symmetric] m_def[symmetric] c'_def[symmetric]
    using k0 kB c'F acc' c'0 w' first' room' exact' so q' by simp
qed

lemma zipper_fp_inv_flush:
  assumes ctx: "zipper_fp_ctx rnd eps N g" and inv: "zipper_fp_inv rnd eps g"
    and le: "point_order g + 1 \<le> base_size g"
    and fl: "\<not> rnd (cached_ratios_sum g + 1) < compression_ratio g"
  shows "zipper_fp_inv rnd eps (snd (add_point_fp rnd g v))"
proof -
  define r where "r = compression_ratio g"
  define c where "c = cached_ratios_sum g"
  define k where "k = point_order g"
  define B where "B = base_size g"
  define zg where "zg = zipped_graph g"
  define ps where "ps = map fst zg"
  define m where "m = py_int (rnd (r / 2))"
  define c' where "c' = rnd (1 - rnd (r - c))"
  define p where "p = (if rnd (rnd (real_of_int (k + 1)) - r) \<le> 1 then 1
            else if k + 1 = B then B else k + 1 - m)"
  note cf = zipper_fp_ctx_facts[OF ctx, folded r_def B_def]
  have R: "is_rounding rnd eps N" by (rule cf(1))
  have r1: "1 < r" and rF: "rnd r = r" by (rule cf(2), rule cf(3))
  have k0: "0 \<le> k" and kB: "k + 1 \<le> B" and cF: "rnd c = c" and cr: "c < r" and c0: "- (1 / 2) \<le> c"
    and w: "\<bar>real (length zg) * r + c - real_of_int k\<bar> \<le> real_of_int k * (eps * (r + 2))"
    and first: "zg = [] \<longrightarrow> c = real_of_int k"
    and room: "zg \<noteq> [] \<longrightarrow> real_of_int \<lceil>c\<rceil> + r \<le> real_of_int k + 1"
    and exact: "r = real_of_int \<lfloor>r\<rfloor> \<longrightarrow>
                  c = real_of_int \<lfloor>c\<rfloor> \<and> real (length zg) * r + c = real_of_int k"
    and so: "sorted_wrt (<) ps"
    and q: "\<forall>q \<in> set ps. 1 \<le> q \<and> q \<le> k \<and> (q = 1 \<or> q + m \<le> k \<or> k = B)"
    using inv le
    by (simp_all add: zipper_fp_inv_def r_def c_def k_def B_def zg_def m_def ps_def)
  have full: "r \<le> rnd (c + 1)" using fl by (simp add: c_def r_def)
  note s = add_point_fp_flush[where rnd = rnd and g = g and v = v,
      OF cf(2)[unfolded r_def] le fl]
  note core = flush_core[OF R cf(7) c0 cr cF r1 rF full cf(10) cf(9), folded c'_def]
  have r0: "rnd 0 = 0" and rn1: "rnd 1 = 1"
    using rounding_0[OF R] rounding_1[OF R] cf(7) by simp_all
  have c'F: "rnd c' = c'" unfolding c'_def using R by (rule rounding_idem)
  have c'r: "c' < r" using core(1) r1 by linarith
  have kN: "\<bar>k + 1\<bar> \<le> N" using k0 kB cf(5) by simp
  have rk: "rnd (real_of_int (k + 1)) = real_of_int (k + 1)" using R kN by (rule rounding_int)
  have c_ceil0: "0 \<le> \<lceil>c\<rceil>" using c0 by (simp add: le_ceiling_iff)
  have c_ceilN: "\<bar>\<lceil>c\<rceil> + 1\<bar> \<le> N"
  proof -
    have "real_of_int \<lceil>c\<rceil> < c + 1" by linarith
    then have "real_of_int (\<lceil>c\<rceil> + 1) < real_of_int N + 1" using cr cf(11) by simp
    then have "\<lceil>c\<rceil> + 1 \<le> N" by linarith
    then show ?thesis using c_ceil0 by simp
  qed
  \<comment> \<open>a full window has a cached weight of at least the ratio less 1, rounded up\<close>
  have ceil_full: "r \<le> real_of_int \<lceil>c\<rceil> + 1"
  proof -
    have "rnd (c + 1) \<le> rnd (real_of_int (\<lceil>c\<rceil> + 1))"
      using R by (rule rounding_mono) (simp add: le_of_int_ceiling)
    also have "\<dots> = real_of_int (\<lceil>c\<rceil> + 1)" using R c_ceilN by (rule rounding_int)
    finally show ?thesis using full by simp
  qed
  \<comment> \<open>the ratio is at most the new number of points\<close>
  have r_le_k: "r \<le> real_of_int (k + 1)"
  proof (cases "zg = []")
    case True
    then have "c + 1 = real_of_int (k + 1)" using first by simp
    then have "rnd (c + 1) = real_of_int (k + 1)" using rk by simp
    then show ?thesis using full by simp
  next
    case False
    then have "real_of_int \<lceil>c\<rceil> + r \<le> real_of_int k + 1" using room by simp
    moreover have "0 \<le> real_of_int \<lceil>c\<rceil>" using c_ceil0 by linarith
    ultimately show ?thesis by linarith
  qed
  \<comment> \<open>after the first flush the new number of points is more than 1 above the ratio\<close>
  have later: "1 < real_of_int (k + 1) - r" if ne: "zg \<noteq> []"
  proof (cases "r = real_of_int \<lfloor>r\<rfloor>")
    case True
    with exact have ci: "c = real_of_int \<lfloor>c\<rfloor>" and e: "real (length zg) * r + c = real_of_int k"
      by simp_all
    have "\<lceil>c\<rceil> = \<lfloor>c\<rfloor>" using ci by (metis ceiling_of_int)
    then have cge: "r \<le> c + 1" using ceil_full ci by simp
    have "1 \<le> real (length zg)" using ne by (cases zg) simp_all
    then have "1 * r \<le> real (length zg) * r" using r1 by (intro mult_right_mono) simp_all
    then have "r \<le> real (length zg) * r" by simp
    moreover have "real_of_int (k + 1) = real_of_int k + 1" by simp
    ultimately show ?thesis using e cge r1 by linarith
  next
    case False
    have rm: "real_of_int \<lceil>c\<rceil> + r \<le> real_of_int k + 1" using room ne by simp
    have "1 \<le> \<lceil>c\<rceil>" using ceil_full r1 by linarith
    then have ge: "r \<le> real_of_int k" using rm by linarith
    have "r \<noteq> real_of_int k" using False by (metis floor_of_int)
    moreover have "real_of_int (k + 1) = real_of_int k + 1" by simp
    ultimately show ?thesis using ge by linarith
  qed
  have not_start: "1 < rnd (real_of_int (k + 1) - r)" if ne: "zg \<noteq> []"
    using R cf(7) rk r1 rF later[OF ne] by (rule position_not_start)
  have above: "1 < real_of_int (k + 1) - r" if "1 < rnd (real_of_int (k + 1) - r)"
  proof (rule ccontr)
    assume "\<not> 1 < real_of_int (k + 1) - r"
    then have "real_of_int (k + 1) - r \<le> 1" by simp
    with R have "rnd (real_of_int (k + 1) - r) \<le> rnd 1" by (rule rounding_mono)
    with that rn1 show False by simp
  qed
  have m0: "0 \<le> m" and mr: "real_of_int m \<le> r"
  proof -
    have h0: "rnd 0 \<le> rnd (r / 2)" using R by (rule rounding_mono) (use r1 in simp)
    then have h: "0 \<le> rnd (r / 2)" using r0 by simp
    then have me: "m = \<lfloor>rnd (r / 2)\<rfloor>" by (simp add: m_def py_int_def)
    show "0 \<le> m" using h me by simp
    have "rnd (r / 2) \<le> rnd r" using R by (rule rounding_mono) (use r1 in simp)
    then have "rnd (r / 2) \<le> r" using rF by simp
    moreover have "real_of_int m \<le> rnd (r / 2)" unfolding me by (rule of_int_floor_le)
    ultimately show "real_of_int m \<le> r" by linarith
  qed
  have p_cases: "(rnd (real_of_int (k + 1) - r) \<le> 1 \<and> p = 1) \<or>
                 (1 < rnd (real_of_int (k + 1) - r) \<and> k + 1 = B \<and> p = B) \<or>
                 (1 < rnd (real_of_int (k + 1) - r) \<and> p = k + 1 - m)"
    unfolding p_def rk by auto
  have p_bounds: "1 \<le> p \<and> p \<le> k + 1 \<and> (p = 1 \<or> p + m \<le> k + 1 \<or> k + 1 = B)"
  proof -
    from p_cases consider "p = 1" | "k + 1 = B" "p = B"
      | "1 < rnd (real_of_int (k + 1) - r)" "p = k + 1 - m" by blast
    then show ?thesis
    proof cases
      case 1
      then show ?thesis using k0 by simp
    next
      case 2
      then show ?thesis using k0 by simp
    next
      case 3
      have "1 < real_of_int (k + 1) - real_of_int m" using above[OF 3(1)] mr by linarith
      then have "1 < k + 1 - m" by linarith
      then show ?thesis using 3(2) m0 by simp
    qed
  qed
  have below: "\<forall>q \<in> set ps. q < p"
  proof
    fix x assume xin: "x \<in> set ps"
    then have ne: "zg \<noteq> []" by (auto simp: ps_def)
    from q xin have xb: "1 \<le> x" "x \<le> k" "x = 1 \<or> x + m \<le> k \<or> k = B" by blast+
    from p_cases not_start[OF ne]
    consider "k + 1 = B" "p = B" | "p = k + 1 - m" by force
    then show "x < p"
    proof cases
      case 1
      then show ?thesis using xb(2) by simp
    next
      case 2
      have "1 < real_of_int (k + 1) - real_of_int m" using later[OF ne] mr by linarith
      then have one: "1 < k + 1 - m" by linarith
      from xb(3) kB have "x = 1 \<or> x + m \<le> k" by linarith
      then show ?thesis using one 2 by linarith
    qed
  qed
  have so': "sorted_wrt (<) (ps @ [p])"
    using so below by (simp add: sorted_wrt_append)
  have q': "\<forall>q \<in> set (ps @ [p]).
      1 \<le> q \<and> q \<le> k + 1 \<and> (q = 1 \<or> q + m \<le> k + 1 \<or> k + 1 = B)"
  proof
    fix x assume "x \<in> set (ps @ [p])"
    then consider "x \<in> set ps" | "x = p" by auto
    then show "1 \<le> x \<and> x \<le> k + 1 \<and> (x = 1 \<or> x + m \<le> k + 1 \<or> k + 1 = B)"
    proof cases
      case 1
      with q have "1 \<le> x \<and> x \<le> k \<and> (x = 1 \<or> x + m \<le> k \<or> k = B)" by blast
      then show ?thesis using kB by linarith
    next
      case 2
      then show ?thesis using p_bounds by simp
    qed
  qed
  have len: "length (zipped_graph (snd (add_point_fp rnd g v))) = length zg + 1"
    using arg_cong[OF s(3), of length] by (simp add: zg_def)
  have ne': "zipped_graph (snd (add_point_fp rnd g v)) \<noteq> []"
    using len by auto
  have w': "\<bar>real (length zg + 1) * r + c' - real_of_int (k + 1)\<bar>
              \<le> real_of_int (k + 1) * (eps * (r + 2))"
  proof -
    have a: "real_of_int (k + 1) * (eps * (r + 2)) = real_of_int k * (eps * (r + 2)) + eps * (r + 2)"
      by (simp add: algebra_simps)
    have b: "real (length zg + 1) * r + c' - real_of_int (k + 1)
             = (real (length zg) * r + c - real_of_int k) + (c' - (c + 1 - r))"
      by (simp add: algebra_simps)
    show ?thesis unfolding a b using w core(3) by linarith
  qed
  have room': "real_of_int \<lceil>c'\<rceil> + r \<le> real_of_int (k + 1) + 1"
  proof -
    have "\<lceil>c'\<rceil> \<le> 1" using core(1) by (simp add: ceiling_le_iff)
    then have "real_of_int \<lceil>c'\<rceil> \<le> 1" by linarith
    then show ?thesis using r_le_k by linarith
  qed
  have exact': "r = real_of_int \<lfloor>r\<rfloor> \<longrightarrow>
       c' = real_of_int \<lfloor>c'\<rfloor> \<and> real (length zg + 1) * r + c' = real_of_int (k + 1)"
  proof
    assume ri: "r = real_of_int \<lfloor>r\<rfloor>"
    with exact have ci: "c = real_of_int \<lfloor>c\<rfloor>" and e: "real (length zg) * r + c = real_of_int k"
      by simp_all
    define d where "d = \<lfloor>r\<rfloor> - \<lfloor>c\<rfloor>"
    have dr: "r - c = real_of_int d" using ri ci by (simp add: d_def)
    have d0: "0 < d" using cr dr by linarith
    have dN: "real_of_int d \<le> real_of_int N" using dr c0 cf(11) by linarith
    have "\<bar>d\<bar> \<le> N" using d0 dN by linarith
    with R have "rnd (real_of_int d) = real_of_int d" by (rule rounding_int)
    then have rest: "rnd (r - c) = real_of_int d" by (simp add: dr)
    have "\<bar>1 - d\<bar> \<le> N" using d0 dN by linarith
    with R have "rnd (real_of_int (1 - d)) = real_of_int (1 - d)" by (rule rounding_int)
    moreover have "1 - rnd (r - c) = real_of_int (1 - d)" by (simp add: rest)
    ultimately have c'e: "c' = real_of_int (1 - d)" by (simp only: c'_def)
    then have "c' = real_of_int \<lfloor>c'\<rfloor>" by simp
    moreover have "real (length zg + 1) * r + c' = real_of_int (k + 1)"
      using c'e e dr by (simp add: algebra_simps)
    ultimately show "c' = real_of_int \<lfloor>c'\<rfloor> \<and>
        real (length zg + 1) * r + c' = real_of_int (k + 1)" ..
  qed
  show ?thesis
    unfolding zipper_fp_inv_def s len
    unfolding r_def[symmetric] c_def[symmetric] k_def[symmetric] B_def[symmetric]
      zg_def[symmetric] ps_def[symmetric] m_def[symmetric] c'_def[symmetric] p_def[symmetric]
    using k0 kB c'F c'r core(2) w' room' exact' so' q' ne' by simp
qed

lemma zipper_fp_inv_add_point:
  assumes "zipper_fp_ctx rnd eps N g" "zipper_fp_inv rnd eps g"
    and "point_order g + 1 \<le> base_size g"
  shows "zipper_fp_inv rnd eps (snd (add_point_fp rnd g v))"
  using assms zipper_fp_inv_accumulate zipper_fp_inv_flush by blast

lemma zipper_fp_add_points:
  "zipper_fp_ctx rnd eps N g \<Longrightarrow> zipper_fp_inv rnd eps g \<Longrightarrow>
   point_order g + int (length vs) \<le> base_size g \<Longrightarrow>
   fst (add_points_fp rnd g vs) = Inr () \<and>
   zipper_fp_inv rnd eps (snd (add_points_fp rnd g vs)) \<and>
   point_order (snd (add_points_fp rnd g vs)) = point_order g + int (length vs) \<and>
   base_size (snd (add_points_fp rnd g vs)) = base_size g \<and>
   compression_ratio (snd (add_points_fp rnd g vs)) = compression_ratio g"
proof (induction vs arbitrary: g)
  case Nil
  then show ?case by simp
next
  case (Cons v vs)
  let ?g = "snd (add_point_fp rnd g v)"
  have le: "point_order g + 1 \<le> base_size g" using Cons.prems by simp
  note step = add_point_fp_ok[OF le, of rnd v]
  have ctx': "zipper_fp_ctx rnd eps N ?g" using Cons.prems(1) le by (rule zipper_fp_ctx_step)
  have inv': "zipper_fp_inv rnd eps ?g"
    using Cons.prems(1,2) le by (rule zipper_fp_inv_add_point)
  have le': "point_order ?g + int (length vs) \<le> base_size ?g"
    using Cons.prems(3) step(2,3) by simp
  from Cons.IH[OF ctx' inv' le'] show ?case
    by (simp add: add_points_fp_Cons_ok[OF step(1)] step(2,3,4) del: add_points_fp.simps(2))
qed

subsection \<open>GraphZipper in floating point: positions and length\<close>

lemma zipper_fp_init:
  assumes R: "is_rounding rnd eps N" and small: "eps * real_of_int bs \<le> 1 / 5"
    and bN: "bs < N" and i: "GraphZipper_init_fp rnd bs zs = Inr g0"
    and zb: "zs < bs" and z0: "0 \<le> zs"
  shows "0 < zs" and "zipper_fp_ctx rnd eps N g0" and "zipper_fp_inv rnd eps g0"
    and "base_size g0 = bs" and "point_order g0 = 0"
    and "\<bar>real_of_int zs * compression_ratio g0 - real_of_int bs\<bar> \<le> eps * real_of_int bs"
proof -
  define r0 where "r0 = real_of_int bs / real_of_int zs"
  have N1: "1 \<le> N" using bN zb z0 by linarith
  have e0: "0 \<le> eps" using R N1 by (rule rounding_eps_nonneg)
  have rz: "rnd (real_of_int zs) = real_of_int zs"
    using R by (rule rounding_int) (use z0 zb bN in simp)
  have rb: "rnd (real_of_int bs) = real_of_int bs"
    using R by (rule rounding_int) (use z0 zb bN in simp)
  have "zs \<noteq> 0" using i zb rz by (auto simp: GraphZipper_init_fp_def split: if_splits)
  then show z: "0 < zs" using z0 by simp
  have g0: "g0 = \<lparr>base_size = bs, zipped_size = zs, compression_ratio = rnd r0,
             point_order = 0, cached_ratios_sum = 0,
             ratio_value_points = [], zipped_graph = []\<rparr>"
    using i zb z rz rb by (auto simp: GraphZipper_init_fp_def r0_def split: if_splits)
  show "base_size g0 = bs" and "point_order g0 = 0" by (simp_all add: g0)
  have zr0: "real_of_int zs * r0 = real_of_int bs" using z by (simp add: r0_def)
  have r0_1: "1 < r0" using z zb by (simp add: r0_def)
  have r0_B: "r0 \<le> real_of_int bs"
  proof -
    have "1 \<le> real_of_int zs" using z by simp
    then have "1 * r0 \<le> real_of_int zs * r0" using r0_1 by (intro mult_right_mono) simp_all
    then show ?thesis using zr0 by simp
  qed
  have "\<bar>rnd r0 - r0\<bar> \<le> eps * \<bar>r0\<bar>" using R by (rule rounding_err) (use r0_1 in simp)
  then have err: "\<bar>rnd r0 - r0\<bar> \<le> eps * r0" using r0_1 by simp
  have "real_of_int zs * \<bar>rnd r0 - r0\<bar> \<le> real_of_int zs * (eps * r0)"
    using err z by (intro mult_left_mono) simp_all
  moreover have "real_of_int zs * \<bar>rnd r0 - r0\<bar> = \<bar>real_of_int zs * rnd r0 - real_of_int zs * r0\<bar>"
    using z by (simp add: abs_mult right_diff_distrib[symmetric])
  moreover have "real_of_int zs * (eps * r0) = eps * real_of_int bs"
    using zr0 by (simp add: mult.left_commute)
  ultimately have zerr: "\<bar>real_of_int zs * rnd r0 - real_of_int bs\<bar> \<le> eps * real_of_int bs"
    using zr0 by simp
  then show "\<bar>real_of_int zs * compression_ratio g0 - real_of_int bs\<bar> \<le> eps * real_of_int bs"
    by (simp add: g0)
  have r1: "1 < rnd r0"
  proof -
    have "real_of_int zs * 1 < real_of_int zs * rnd r0"
    proof -
      have "real_of_int zs + 1 \<le> real_of_int bs" using zb by linarith
      then show ?thesis using zerr small by linarith
    qed
    then show ?thesis using z by (simp only: mult_less_cancel_left_pos of_int_0_less_iff)
  qed
  have "rnd r0 \<le> rnd (real_of_int bs)" using R r0_B by (rule rounding_mono)
  then have rB: "rnd r0 \<le> real_of_int bs" using rb by simp
  have rF: "rnd (rnd r0) = rnd r0" using R by (rule rounding_idem)
  show "zipper_fp_ctx rnd eps N g0"
    using R r1 rB rF bN small by (simp add: zipper_fp_ctx_def g0)
  have r00: "rnd 0 = 0" using rounding_0[OF R] N1 by simp
  show "zipper_fp_inv rnd eps g0"
    using r1 r00 z zb by (simp add: zipper_fp_inv_def g0)
qed

text \<open>The length follows from the weight equation up to the rounding errors.\<close>

lemma zipper_fp_length:
  fixes r c eps :: real and n :: nat and k bs zs :: int
  assumes e: "0 \<le> eps" and small: "eps * real_of_int bs \<le> 1 / 5"
    and z: "0 < zs" and r1: "1 < r"
    and zr: "\<bar>real_of_int zs * r - real_of_int bs\<bar> \<le> eps * real_of_int bs"
    and k: "0 \<le> k" "k \<le> bs" and c: "- (1 / 2) \<le> c" "c < r"
    and w: "\<bar>real n * r + c - real_of_int k\<bar> \<le> real_of_int k * (eps * (r + 2))"
  shows "int n \<le> zs + 1" and "k = bs \<Longrightarrow> zs - 1 \<le> int n"
proof -
  have er0: "0 \<le> eps * (r + 2)" using e r1 by simp
  have "real_of_int k * (eps * (r + 2)) \<le> real_of_int bs * (eps * (r + 2))"
    using k er0 by (intro mult_right_mono) simp_all
  also have "\<dots> = (eps * real_of_int bs) * r + 2 * (eps * real_of_int bs)"
    by (simp add: algebra_simps)
  also have "\<dots> \<le> (1 / 5) * r + 2 * (1 / 5)"
  proof -
    have "(eps * real_of_int bs) * r \<le> (1 / 5) * r"
      using small r1 by (intro mult_right_mono) simp_all
    then show ?thesis using small by linarith
  qed
  finally have kerr: "real_of_int k * (eps * (r + 2)) \<le> r / 5 + 2 / 5" by simp
  show "int n \<le> zs + 1"
  proof (rule ccontr)
    assume "\<not> int n \<le> zs + 1"
    then have "real_of_int (zs + 2) \<le> real n" by linarith
    then have "real_of_int (zs + 2) * r \<le> real n * r"
      using r1 by (intro mult_right_mono) simp_all
    then have "real_of_int zs * r + 2 * r \<le> real n * r" by (simp add: algebra_simps)
    then show False using w kerr zr small c k r1 by linarith
  qed
  show "zs - 1 \<le> int n" if kb: "k = bs"
  proof (rule ccontr)
    assume "\<not> zs - 1 \<le> int n"
    then have "real n \<le> real_of_int (zs - 2)" by linarith
    then have "real n * r \<le> real_of_int (zs - 2) * r"
      using r1 by (intro mult_right_mono) simp_all
    then have "real n * r \<le> real_of_int zs * r - 2 * r" by (simp add: algebra_simps)
    then show False using w kerr zr small c kb r1 by linarith
  qed
qed

text \<open>
  C2: in floating point, for every rounding as above (IEEE doubles among them), a
  zipper constructed with \<open>base_size > zipped_size\<close> (the sizes being amounts of
  points, so not negative, and \<open>base_size\<close> small against the unit roundoff: below
  \<open>2 ^ 50\<close> for doubles) accepts any \<open>n \<le> base_size\<close> values; the positions of
  \<^verbatim>\<open>get_zipped_graph\<close> are then strictly increasing and between 1 and \<open>base_size\<close>,
  its length is at most \<open>zipped_size + 1\<close>, and at least \<open>zipped_size - 1\<close> once all
  \<open>base_size\<close> values are fed.
\<close>

theorem zipper_fp_positions_and_length:
  assumes "is_rounding rnd eps N" and "eps * real_of_int bs \<le> 1 / 5" and "bs < N"
    and "GraphZipper_init_fp rnd bs zs = Inr g0" and "zs < bs" and "0 \<le> zs"
    and "int (length vs) \<le> bs"
  shows "fst (add_points_fp rnd g0 vs) = Inr () \<and>
         sorted_wrt (<) (map fst (get_zipped_graph (snd (add_points_fp rnd g0 vs)))) \<and>
         (\<forall>q \<in> set (map fst (get_zipped_graph (snd (add_points_fp rnd g0 vs)))).
            1 \<le> q \<and> q \<le> bs) \<and>
         int (length (get_zipped_graph (snd (add_points_fp rnd g0 vs)))) \<le> zs + 1 \<and>
         (int (length vs) = bs \<longrightarrow>
            zs - 1 \<le> int (length (get_zipped_graph (snd (add_points_fp rnd g0 vs)))))"
proof -
  define g where "g = snd (add_points_fp rnd g0 vs)"
  define r where "r = compression_ratio g0"
  define n where "n = length (zipped_graph g)"
  note i = zipper_fp_init[OF assms(1,2,3,4,5,6)]
  have le: "point_order g0 + int (length vs) \<le> base_size g0" using i(4,5) assms(7) by simp
  note fed = zipper_fp_add_points[OF i(2,3) le, folded g_def]
  have ok: "fst (add_points_fp rnd g0 vs) = Inr ()" using fed by simp
  have inv: "zipper_fp_inv rnd eps g" using fed by simp
  have po: "point_order g = int (length vs)" and rg: "compression_ratio g = r"
    using fed i(5) by (simp_all add: r_def)
  note cf = zipper_fp_ctx_facts[OF i(2), folded r_def]
  have c0: "- (1 / 2) \<le> cached_ratios_sum g" and cr: "cached_ratios_sum g < r"
    and w: "\<bar>real n * r + cached_ratios_sum g - real_of_int (int (length vs))\<bar>
              \<le> real_of_int (int (length vs)) * (eps * (r + 2))"
    and so: "sorted_wrt (<) (map fst (zipped_graph g))"
    and q: "\<forall>q \<in> set (map fst (zipped_graph g)). 1 \<le> q \<and> q \<le> int (length vs)"
    using inv unfolding zipper_fp_inv_def po rg n_def by blast+
  have qb: "\<forall>q \<in> set (map fst (zipped_graph g)). 1 \<le> q \<and> q \<le> bs"
    using q assms(7) by auto
  have k0: "0 \<le> int (length vs)" by simp
  note len = zipper_fp_length[OF cf(8) assms(2) i(1) cf(2) i(6)[folded r_def] k0 assms(7) c0 cr w]
  show ?thesis
    unfolding get_zipped_graph_def g_def[symmetric] n_def[symmetric]
    using ok so qb len by simp
qed

lemma round_grid_of_int: "round_grid (real_of_int j / 2 ^ 60) = real_of_int j / 2 ^ 60"
proof -
  have "\<lfloor>real_of_int j + 1 / 2\<rfloor> = j" by linarith
  then show ?thesis by (simp add: round_grid_def)
qed

lemma round_grid_is_rounding: "is_rounding round_grid (1 / 2 ^ 53) (2 ^ 53)"
  unfolding is_rounding_def
proof (intro conjI allI impI)
  fix x y :: real assume "x \<le> y"
  then have "\<lfloor>x * 2 ^ 60 + 1 / 2\<rfloor> \<le> \<lfloor>y * 2 ^ 60 + 1 / 2\<rfloor>" by (intro floor_mono) simp
  then show "round_grid x \<le> round_grid y"
    by (simp add: round_grid_def divide_right_mono)
next
  fix x :: real
  show "round_grid (round_grid x) = round_grid x"
    unfolding round_grid_def[of x] by (rule round_grid_of_int)
next
  fix n :: int
  have "real_of_int n = real_of_int (n * 2 ^ 60) / 2 ^ 60" by simp
  then show "round_grid (real_of_int n) = real_of_int n"
    using round_grid_of_int[of "n * 2 ^ 60"] by simp
next
  fix x :: real assume x: "1 / 2 \<le> \<bar>x\<bar>"
  define G :: real where "G = 2 ^ 60"
  define y where "y = x * G"
  have G0: "0 < G" by (simp add: G_def)
  have xy: "x = y / G" using G0 by (simp add: y_def)
  have rg: "round_grid x = real_of_int \<lfloor>y + 1 / 2\<rfloor> / G"
    by (simp add: round_grid_def y_def G_def)
  have "round_grid x - x = (real_of_int \<lfloor>y + 1 / 2\<rfloor> - y) / G"
    unfolding rg by (simp only: diff_divide_distrib xy[symmetric])
  then have "\<bar>round_grid x - x\<bar> = \<bar>real_of_int \<lfloor>y + 1 / 2\<rfloor> - y\<bar> / G"
    using G0 by (simp only: abs_divide abs_of_pos)
  also have "\<dots> \<le> (1 / 2) / G"
  proof -
    have "\<bar>real_of_int \<lfloor>y + 1 / 2\<rfloor> - y\<bar> \<le> 1 / 2" by linarith
    then show ?thesis using G0 by (intro divide_right_mono) simp_all
  qed
  also have "\<dots> \<le> (1 / 2 ^ 53) * (1 / 2)" by (simp add: G_def)
  also have "\<dots> \<le> (1 / 2 ^ 53) * \<bar>x\<bar>" using x by (intro mult_left_mono) simp_all
  finally show "\<bar>round_grid x - x\<bar> \<le> 1 / 2 ^ 53 * \<bar>x\<bar>" .
next
  fix x y :: real
  assume x: "round_grid x = x" and y: "round_grid y = y"
  define a where "a = \<lfloor>x * 2 ^ 60 + 1 / 2\<rfloor>"
  define b where "b = \<lfloor>y * 2 ^ 60 + 1 / 2\<rfloor>"
  have "x = real_of_int a / 2 ^ 60" using x by (simp add: round_grid_def a_def)
  moreover have "y = real_of_int b / 2 ^ 60" using y by (simp add: round_grid_def b_def)
  ultimately have "x - y = real_of_int (a - b) / 2 ^ 60" by (simp add: diff_divide_distrib)
  then show "round_grid (x - y) = x - y" by (simp only: round_grid_of_int)
qed

theorem zipper_fp_positions_and_length_witness:
  "fst (add_points_fp round_grid
     \<lparr>base_size = 5, zipped_size = 3,
      compression_ratio = 1921535841011411627 / 1152921504606846976, point_order = 0,
      cached_ratios_sum = 0, ratio_value_points = [], zipped_graph = []\<rparr>
     [PyInt 1, PyInt 2, PyFloat 3, PyOther, PyInt 10]) = Inr () \<and>
   map fst (get_zipped_graph (snd (add_points_fp round_grid
     \<lparr>base_size = 5, zipped_size = 3,
      compression_ratio = 1921535841011411627 / 1152921504606846976, point_order = 0,
      cached_ratios_sum = 0, ratio_value_points = [], zipped_graph = []\<rparr>
     [PyInt 1, PyInt 2, PyFloat 3, PyOther, PyInt 10]))) = [1, 4] \<and>
   sorted_wrt (<) [1, 4 :: int] \<and>
   (3 :: int) - 1 \<le> int (length [1, 4 :: int]) \<and> int (length [1, 4 :: int]) \<le> 3 + 1"
proof -
  let ?g0 = "\<lparr>base_size = 5, zipped_size = 3,
      compression_ratio = 1921535841011411627 / 1152921504606846976, point_order = 0,
      cached_ratios_sum = 0, ratio_value_points = [], zipped_graph = []\<rparr>"
  let ?vs = "[PyInt 1, PyInt 2, PyFloat 3, PyOther, PyInt 10]"
  have i: "GraphZipper_init_fp round_grid 5 3 = Inr ?g0"
    by (simp add: GraphZipper_init_fp_def round_grid_def)
  have s: "(1 / 2 ^ 53 :: real) * real_of_int 5 \<le> 1 / 5" by simp
  have n: "(5 :: int) < 2 ^ 53" by simp
  have a: "(3 :: int) < 5" and b: "(0 :: int) \<le> 3" and c: "int (length ?vs) \<le> 5" by simp_all
  have e: "map fst (get_zipped_graph (snd (add_points_fp round_grid ?g0 ?vs))) = [1, 4]"
    by (simp add: add_point_fp_def get_zipped_point_fp_def get_zipped_graph_def py_int_def
          round_grid_def Let_def)
  from zipper_fp_positions_and_length[OF round_grid_is_rounding s n i a b c] e
  show ?thesis by simp
qed

end
